theory Spec2Isabelle
  imports Complex_Main
begin

section \<open>Python strings\<close>

text \<open>
  A Python \<open>str\<close> is a sequence of code points. It is modelled as \<^typ>\<open>string\<close>, whose
  characters are the code points U+0000 to U+00FF; the classification of characters below
  is Python's for that range.
\<close>

abbreviation NL :: char where
  "NL \<equiv> CHR 0x0A"

abbreviation CR :: char where
  "CR \<equiv> CHR 0x0D"

text \<open>
  \<open>str.isspace\<close> on one character, which is also what \<open>\s\<close> matches in a \<open>str\<close> pattern of
  \<open>re\<close>: TAB, LF, VT, FF, CR, FS, GS, RS, US, SPACE, NEL (U+0085) and NBSP (U+00A0).
\<close>

definition is_space :: "char \<Rightarrow> bool" where
  "is_space c \<longleftrightarrow>
     c \<in> {CHR 0x09, CHR 0x0A, CHR 0x0B, CHR 0x0C, CHR 0x0D, CHR 0x1C, CHR 0x1D, CHR 0x1E,
          CHR 0x1F, CHR 0x20, CHR 0x85, CHR 0xA0}"

text \<open>
  \<open>str.isdigit\<close> on one character: the ten decimal digits and the superscript digits
  U+00B2, U+00B3 and U+00B9.
\<close>

definition is_digit :: "char \<Rightarrow> bool" where
  "is_digit c \<longleftrightarrow> c \<in> set ''0123456789'' \<or> c \<in> {CHR 0xB2, CHR 0xB3, CHR 0xB9}"

text \<open>\<open>s.isdigit()\<close>: every character is a digit and there is at least one.\<close>

definition isdigit :: "string \<Rightarrow> bool" where
  "isdigit s \<longleftrightarrow> s \<noteq> [] \<and> list_all is_digit s"

definition lstrip :: "string \<Rightarrow> string" where
  "lstrip s = dropWhile is_space s"

definition rstrip :: "string \<Rightarrow> string" where
  "rstrip s = rev (dropWhile is_space (rev s))"

text \<open>\<open>s.strip()\<close>\<close>

definition strip :: "string \<Rightarrow> string" where
  "strip s = rstrip (lstrip s)"

text \<open>\<open>s.replace("\r", "")\<close>\<close>

definition remove_cr :: "string \<Rightarrow> string" where
  "remove_cr s = filter (\<lambda>c. c \<noteq> CR) s"

text \<open>\<open>s.split("\n")\<close>: always at least one piece.\<close>

fun split_nl :: "string \<Rightarrow> string list" where
  "split_nl [] = [[]]"
| "split_nl (c # cs) =
     (if c = NL then [] # split_nl cs
      else (case split_nl cs of
              [] \<Rightarrow> [[c]]
            | l # ls \<Rightarrow> (c # l) # ls))"

text \<open>\<open>"\n".join(lines)\<close>\<close>

fun join_nl :: "string list \<Rightarrow> string" where
  "join_nl [] = []"
| "join_nl [l] = l"
| "join_nl (l # ls) = l @ NL # join_nl ls"

subsection \<open>The block separator \<open>\n\s*\n\<close>\<close>

text \<open>
  \<open>star_nl s\<close> matches \<open>\s*\n\<close> at the start of \<open>s\<close> as the backtracking matcher does and
  gives the length of the match: the star first takes the character when it is white space
  and the rest is tried; when the rest fails, the star gives the character back and the
  character has to be the line feed.
\<close>

fun star_nl :: "string \<Rightarrow> nat option" where
  "star_nl [] = None"
| "star_nl (c # cs) =
     (if is_space c then
        (case star_nl cs of
           Some k \<Rightarrow> Some (Suc k)
         | None \<Rightarrow> if c = NL then Some 1 else None)
      else None)"

text \<open>
  \<open>re.split(r"\n\s*\n", s)\<close>: the text is scanned from the left; where the pattern matches,
  the piece read so far ends and the scan goes on behind the match; the rest of the text is
  the last piece.
\<close>

fun re_split :: "string \<Rightarrow> string list" where
  "re_split [] = [[]]"
| "re_split (c # cs) =
     (case (if c = NL then star_nl cs else None) of
        Some k \<Rightarrow> [] # re_split (drop k cs)
      | None \<Rightarrow>
          (case re_split cs of
             [] \<Rightarrow> [[c]]
           | b # bs \<Rightarrow> (c # b) # bs))"

section \<open>Errors\<close>

datatype error =
  IndexError | OverflowError | ValueError | ZeroDivisionError | RuntimeError | TranslateError

text \<open>\<open>xs[i]\<close> for \<open>i \<ge> 0\<close>\<close>

definition py_index :: "'a list \<Rightarrow> nat \<Rightarrow> error + 'a" where
  "py_index xs i = (if i < length xs then Inr (xs ! i) else Inl IndexError)"

section \<open>The parser (translate.py)\<close>

text \<open>An entry is the pair \<open>(time_line, body)\<close> of \<open>parse_srt\<close>.\<close>

type_synonym entry = "string \<times> string list"

text \<open>
  One round of the loop over the blocks: \<open>None\<close> is \<open>continue\<close>, \<open>Some (Inl e)\<close> is an
  exception, \<open>Some (Inr entry)\<close> is the entry appended.
\<close>

definition parse_block :: "string \<Rightarrow> (error + entry) option" where
  "parse_block block =
     (let lines = split_nl block in
      if length lines < 2 then None
      else Some
        (case py_index lines 0 of
           Inl e \<Rightarrow> Inl e
         | Inr first \<Rightarrow>
             (let idx = (if isdigit (strip first) then 1 else 0) in
              case py_index lines idx of
                Inl e \<Rightarrow> Inl e
              | Inr time_line \<Rightarrow> Inr (time_line, drop (idx + 1) lines))))"

fun parse_blocks :: "string list \<Rightarrow> entry list \<Rightarrow> error + entry list" where
  "parse_blocks [] entries = Inr entries"
| "parse_blocks (block # blocks) entries =
     (case parse_block block of
        None \<Rightarrow> parse_blocks blocks entries
      | Some (Inl e) \<Rightarrow> Inl e
      | Some (Inr entry) \<Rightarrow> parse_blocks blocks (entries @ [entry]))"

definition blocks_of :: "string \<Rightarrow> string list" where
  "blocks_of text = re_split (strip (remove_cr text))"

definition parse_srt :: "string \<Rightarrow> error + entry list" where
  "parse_srt text = parse_blocks (blocks_of text) []"

section \<open>The serializer (translate.py)\<close>

text \<open>Decimal digits of a natural number, most significant first.\<close>

definition digit_char :: "nat \<Rightarrow> char" where
  "digit_char d = ''0123456789'' ! d"

fun digits :: "nat \<Rightarrow> string" where
  "digits n = (if n < 10 then [digit_char n] else digits (n div 10) @ [digit_char (n mod 10)])"

declare digits.simps [simp del]

text \<open>\<open>str(i)\<close> and \<open>f"{i}"\<close> for an \<open>int\<close>\<close>

definition str_int :: "int \<Rightarrow> string" where
  "str_int i = (if i < 0 then CHR ''-'' # digits (nat (- i)) else digits (nat i))"

text \<open>
  The file is modelled by what is written to it: \<open>write_srt_from i entries\<close> is the list of
  the arguments of the calls of \<open>f.write\<close>, three for each entry, when \<open>enumerate\<close> has
  reached \<open>i\<close>; the file's content is their concatenation. Failures of \<open>open\<close> and
  \<open>write\<close> are outside the model.
\<close>

fun write_srt_from :: "int \<Rightarrow> entry list \<Rightarrow> string list" where
  "write_srt_from i [] = []"
| "write_srt_from i ((time_line, body_lines) # entries) =
     [str_int i @ [NL], time_line @ [NL], strip (join_nl body_lines) @ [NL, NL]]
     @ write_srt_from (i + 1) entries"

definition write_srt :: "entry list \<Rightarrow> string" where
  "write_srt entries = concat (write_srt_from 1 entries)"

section \<open>The reparse-translate pipeline (translate.py, main)\<close>

text \<open>
  The translator is an opaque capability: \<open>translation.translate(line)\<close> may depend on and
  change a state of its own and may raise. The pipeline also records, in order, the
  arguments it passes to the translator; that trace is not in the source, it is the means
  to speak about the calls.
\<close>

type_synonym 's translator = "string \<Rightarrow> 's \<Rightarrow> error + (string \<times> 's)"

fun translate_lines ::
  "'s translator \<Rightarrow> string list \<Rightarrow> string list \<Rightarrow> 's \<Rightarrow> string list
     \<Rightarrow> error + (string list \<times> 's \<times> string list)" where
  "translate_lines tr [] translated_lines s calls = Inr (translated_lines, s, calls)"
| "translate_lines tr (line # body_lines) translated_lines s calls =
     (let line = strip line in
      if line = [] then translate_lines tr body_lines (translated_lines @ [[]]) s calls
      else (case tr line s of
              Inl e \<Rightarrow> Inl e
            | Inr (t, s') \<Rightarrow>
                translate_lines tr body_lines (translated_lines @ [t]) s' (calls @ [line])))"

fun translate_entries ::
  "'s translator \<Rightarrow> entry list \<Rightarrow> entry list \<Rightarrow> 's \<Rightarrow> string list
     \<Rightarrow> error + (entry list \<times> 's \<times> string list)" where
  "translate_entries tr [] translated_entries s calls = Inr (translated_entries, s, calls)"
| "translate_entries tr ((time_line, body_lines) # entries) translated_entries s calls =
     (case translate_lines tr body_lines [] s calls of
        Inl e \<Rightarrow> Inl e
      | Inr (translated_lines, s', calls') \<Rightarrow>
          translate_entries tr entries
            (translated_entries @ [(time_line, translated_lines)]) s' calls')"

text \<open>
  \<open>main\<close> of translate.py, from the text read from the input file to the text written to
  the output file. \<open>translation\<close> is what \<open>get_translation_from_codes\<close> returned.
\<close>

definition translate_main ::
  "'s translator option \<Rightarrow> 's \<Rightarrow> string \<Rightarrow> error + (string \<times> 's \<times> string list)" where
  "translate_main translation s srt_text =
     (case translation of
        None \<Rightarrow> Inl RuntimeError
      | Some tr \<Rightarrow>
          (case parse_srt srt_text of
             Inl e \<Rightarrow> Inl e
           | Inr entries \<Rightarrow>
               (case translate_entries tr entries [] s [] of
                  Inl e \<Rightarrow> Inl e
                | Inr (translated_entries, s', calls) \<Rightarrow>
                    Inr (write_srt translated_entries, s', calls))))"

section \<open>Python floats\<close>

text \<open>
  A \<open>float\<close> is an IEEE 754 binary64 number: a finite one is modelled by its exact value,
  a rational, and every operation rounds its exact result to the nearest binary64 number,
  ties to the even significand. The sign of zero is not modelled: it has no effect on the
  arithmetic and the comparisons used here.
\<close>

datatype pyfloat = Finite rat | PosInf | NegInf | NaN

definition pow2 :: "int \<Rightarrow> rat" where
  "pow2 e = (if 0 \<le> e then 2 ^ nat e else 1 / 2 ^ nat (- e))"

text \<open>\<open>ilog2 x\<close> is the exponent \<open>e\<close> with \<open>2^e \<le> x < 2^(e+1)\<close>, for \<open>x > 0\<close>.\<close>

function log2_up :: "rat \<Rightarrow> int" where
  "log2_up x = (if x < 2 then 0 else 1 + log2_up (x / 2))"
  by pat_completeness auto
termination
proof (relation "measure (\<lambda>x. nat \<lfloor>x\<rfloor>)")
  show "wf (measure (\<lambda>x::rat. nat \<lfloor>x\<rfloor>))" by simp
next
  fix x :: rat
  assume "\<not> x < 2"
  then have "\<lfloor>x / 2\<rfloor> < \<lfloor>x\<rfloor>" and "0 < \<lfloor>x\<rfloor>"
    by linarith+
  then show "(x / 2, x) \<in> measure (\<lambda>x. nat \<lfloor>x\<rfloor>)" by simp
qed

function log2_down :: "rat \<Rightarrow> int" where
  "log2_down x = (if x \<le> 0 \<or> 1 \<le> x then 0 else log2_down (2 * x) - 1)"
  by pat_completeness auto
termination
proof (relation "measure (\<lambda>x. nat \<lfloor>1 / x\<rfloor>)")
  show "wf (measure (\<lambda>x::rat. nat \<lfloor>1 / x\<rfloor>))" by simp
next
  fix x :: rat
  assume "\<not> (x \<le> 0 \<or> 1 \<le> x)"
  then have x: "0 < x" "x < 1" by simp_all
  define y where "y = 1 / x"
  have y: "1 < y" using x by (simp add: y_def)
  have half: "1 / (2 * x) = y / 2" by (simp add: y_def)
  have pos: "0 < \<lfloor>y\<rfloor>" using y by linarith
  have "\<lfloor>y / 2\<rfloor> < \<lfloor>y\<rfloor>"
  proof (cases "y < 2")
    case True
    then have "\<lfloor>y / 2\<rfloor> \<le> 0" by linarith
    with pos show ?thesis by linarith
  next
    case False
    then show ?thesis by linarith
  qed
  with pos have "nat \<lfloor>y / 2\<rfloor> < nat \<lfloor>y\<rfloor>" by linarith
  then have "nat \<lfloor>1 / (2 * x)\<rfloor> < nat \<lfloor>1 / x\<rfloor>"
    by (simp only: half) (simp only: y_def)
  then show "(2 * x, x) \<in> measure (\<lambda>x. nat \<lfloor>1 / x\<rfloor>)"
    by (simp only: in_measure)
qed

declare log2_up.simps [simp del] log2_down.simps [simp del]

definition ilog2 :: "rat \<Rightarrow> int" where
  "ilog2 x = (if 1 \<le> x then log2_up x else log2_down x)"

text \<open>Rounding to the nearest integer, a tie to the even one.\<close>

definition round_half_even :: "rat \<Rightarrow> int" where
  "round_half_even x =
     (let f = \<lfloor>x\<rfloor>; d = x - of_int f in
      if d < 1 / 2 then f
      else if 1 / 2 < d then f + 1
      else if even f then f else f + 1)"

text \<open>
  The nearest binary64 value of a rational: 53 bits of significand, and the exponent of
  the last place not below \<open>-1074\<close> (the subnormal numbers).
\<close>

definition fl_round :: "rat \<Rightarrow> rat" where
  "fl_round x =
     (if x = 0 then 0
      else (let q = max (ilog2 \<bar>x\<bar> - 52) (- 1074) in
            of_int (round_half_even (x / pow2 q)) * pow2 q))"

text \<open>A result that rounds to \<open>2^1024\<close> or beyond overflows to an infinity.\<close>

definition to_float :: "rat \<Rightarrow> pyfloat" where
  "to_float x =
     (let r = fl_round x in
      if pow2 1024 \<le> r then PosInf
      else if r \<le> - pow2 1024 then NegInf
      else Finite r)"

fun f_sign :: "pyfloat \<Rightarrow> rat" where
  "f_sign (Finite a) = sgn a"
| "f_sign PosInf = 1"
| "f_sign NegInf = - 1"
| "f_sign NaN = 0"

definition signed_inf :: "rat \<Rightarrow> pyfloat" where
  "signed_inf s = (if s = 0 then NaN else if 0 < s then PosInf else NegInf)"

text \<open>\<open>x * y\<close>\<close>

fun f_mul :: "pyfloat \<Rightarrow> pyfloat \<Rightarrow> pyfloat" where
  "f_mul (Finite a) (Finite b) = to_float (a * b)"
| "f_mul NaN y = NaN"
| "f_mul x NaN = NaN"
| "f_mul x y = signed_inf (f_sign x * f_sign y)"

text \<open>\<open>x / y\<close>: a zero divisor raises, whatever the dividend.\<close>

fun f_div :: "pyfloat \<Rightarrow> pyfloat \<Rightarrow> error + pyfloat" where
  "f_div x (Finite b) =
     (if b = 0 then Inl ZeroDivisionError
      else Inr (case x of
                  Finite a \<Rightarrow> to_float (a / b)
                | NaN \<Rightarrow> NaN
                | _ \<Rightarrow> signed_inf (f_sign x * sgn b)))"
| "f_div x NaN = Inr NaN"
| "f_div (Finite a) y = Inr (Finite 0)"
| "f_div x y = Inr NaN"

text \<open>\<open>x - y\<close>\<close>

fun f_sub :: "pyfloat \<Rightarrow> pyfloat \<Rightarrow> pyfloat" where
  "f_sub (Finite a) (Finite b) = to_float (a - b)"
| "f_sub NaN y = NaN"
| "f_sub x NaN = NaN"
| "f_sub (Finite a) PosInf = NegInf"
| "f_sub (Finite a) NegInf = PosInf"
| "f_sub PosInf PosInf = NaN"
| "f_sub NegInf NegInf = NaN"
| "f_sub x y = x"

text \<open>\<open>x < y\<close>; \<open>x > y\<close> is \<open>f_lt y x\<close>. A comparison with NaN is false.\<close>

fun f_lt :: "pyfloat \<Rightarrow> pyfloat \<Rightarrow> bool" where
  "f_lt (Finite a) (Finite b) \<longleftrightarrow> a < b"
| "f_lt NaN y \<longleftrightarrow> False"
| "f_lt x NaN \<longleftrightarrow> False"
| "f_lt x NegInf \<longleftrightarrow> False"
| "f_lt PosInf y \<longleftrightarrow> False"
| "f_lt x y \<longleftrightarrow> True"

text \<open>
  \<open>max(x, y)\<close> and \<open>min(x, y)\<close>: the first argument is kept unless the second is strictly
  greater (smaller).
\<close>

definition py_max :: "pyfloat \<Rightarrow> pyfloat \<Rightarrow> pyfloat" where
  "py_max x y = (if f_lt x y then y else x)"

definition py_min :: "pyfloat \<Rightarrow> pyfloat \<Rightarrow> pyfloat" where
  "py_min x y = (if f_lt y x then y else x)"

text \<open>\<open>int(round(x))\<close>\<close>

fun py_round :: "pyfloat \<Rightarrow> error + int" where
  "py_round (Finite a) = Inr (round_half_even a)"
| "py_round NaN = Inl ValueError"
| "py_round x = Inl OverflowError"

section \<open>The emitter (asr.py)\<close>

text \<open>\<open>f"{n:0wd}"\<close>: the width counts the sign.\<close>

definition fmt_d :: "nat \<Rightarrow> int \<Rightarrow> string" where
  "fmt_d w n =
     (if n < 0 then
        (let ds = digits (nat (- n)) in CHR ''-'' # replicate (w - 1 - length ds) CHR ''0'' @ ds)
      else (let ds = digits (nat n) in replicate (w - length ds) CHR ''0'' @ ds))"

definition format_millis :: "int \<Rightarrow> string" where
  "format_millis millis =
     (let hours = millis div 3600000;
          minutes = (millis mod 3600000) div 60000;
          secs = (millis mod 60000) div 1000;
          ms = millis mod 1000
      in fmt_d 2 hours @ '':'' @ fmt_d 2 minutes @ '':'' @ fmt_d 2 secs @ '','' @ fmt_d 3 ms)"

definition format_time :: "pyfloat \<Rightarrow> error + string" where
  "format_time seconds =
     (case py_round (f_mul seconds (Finite 1000)) of
        Inl e \<Rightarrow> Inl e
      | Inr millis \<Rightarrow> Inr (format_millis millis))"

record segment =
  seg_start :: pyfloat
  seg_end :: pyfloat
  seg_text :: string

text \<open>\<open>write_srt\<close> of asr.py, as the list of the arguments of \<open>f.write\<close>.\<close>

fun asr_write_srt_from :: "int \<Rightarrow> segment list \<Rightarrow> error + string list" where
  "asr_write_srt_from i [] = Inr []"
| "asr_write_srt_from i (seg # segments) =
     (case format_time (seg_start seg) of
        Inl e \<Rightarrow> Inl e
      | Inr t1 \<Rightarrow>
          (case format_time (seg_end seg) of
             Inl e \<Rightarrow> Inl e
           | Inr t2 \<Rightarrow>
               (case asr_write_srt_from (i + 1) segments of
                  Inl e \<Rightarrow> Inl e
                | Inr rest \<Rightarrow>
                    Inr ([str_int i @ [NL], t1 @ '' --> '' @ t2 @ [NL],
                          strip (seg_text seg) @ [NL, NL]] @ rest))))"

definition asr_write_srt :: "segment list \<Rightarrow> error + string" where
  "asr_write_srt segments = map_sum id concat (asr_write_srt_from 1 segments)"

subsection \<open>Progress telemetry (asr.py, main)\<close>

text \<open>A progress sample: the four numbers of a \<open>PROGRESS\<close> line, before they are formatted.\<close>

type_synonym sample = "pyfloat \<times> pyfloat \<times> pyfloat \<times> pyfloat"

text \<open>The literal \<open>0.001\<close>\<close>

definition epsilon :: pyfloat where
  "epsilon = to_float (1 / 1000)"

text \<open>
  The body of \<open>if total > 0\<close> for one segment; \<open>now\<close> is what \<open>time.time()\<close> returns there.
\<close>

definition progress_sample :: "pyfloat \<Rightarrow> pyfloat \<Rightarrow> pyfloat \<Rightarrow> segment \<Rightarrow> error + sample" where
  "progress_sample total_sec start_time now seg =
     (case f_div (seg_end seg) total_sec of
        Inl e \<Rightarrow> Inl e
      | Inr r \<Rightarrow>
          (let ratio = py_min (py_max r (Finite 0)) (Finite 1);
               elapsed = py_max (f_sub now start_time) epsilon
           in case f_div (seg_end seg) elapsed of
                Inl e \<Rightarrow> Inl e
              | Inr speed \<Rightarrow> Inr (ratio, seg_end seg, total_sec, speed)))"

text \<open>
  The loop over the segments. \<open>clock k\<close> is the value of the \<open>k\<close>-th call of \<open>time.time()\<close>
  and \<open>tick\<close> counts the calls made; \<open>printed\<close> are the samples printed so far.
\<close>

fun consume ::
  "pyfloat \<Rightarrow> pyfloat \<Rightarrow> (nat \<Rightarrow> pyfloat) \<Rightarrow> segment list
     \<Rightarrow> segment list \<times> sample list \<times> nat \<Rightarrow> error + (segment list \<times> sample list \<times> nat)" where
  "consume total_sec start_time clock [] st = Inr st"
| "consume total_sec start_time clock (seg # segments_iter) (segments, printed, tick) =
     (if f_lt (Finite 0) total_sec then
        (case progress_sample total_sec start_time (clock tick) seg of
           Inl e \<Rightarrow> Inl e
         | Inr smp \<Rightarrow>
             consume total_sec start_time clock segments_iter
               (segments @ [seg], printed @ [smp], Suc tick))
      else consume total_sec start_time clock segments_iter (segments @ [seg], printed, tick))"

text \<open>\<open>total = float(args.duration_sec or 0.0)\<close>: a zero is falsy.\<close>

definition total_of :: "pyfloat \<Rightarrow> pyfloat" where
  "total_of duration_sec = (if duration_sec = Finite 0 then Finite 0 else duration_sec)"

text \<open>
  \<open>main\<close> of asr.py from the segments the recognizer yields: the samples printed and the
  text written to the output file. \<open>duration_sec\<close> is the parsed command-line argument.
\<close>

definition asr_main ::
  "pyfloat \<Rightarrow> (nat \<Rightarrow> pyfloat) \<Rightarrow> segment list \<Rightarrow> error + (sample list \<times> string)" where
  "asr_main duration_sec clock segments_iter =
     (let start_time = clock 0
      in case consume (total_of duration_sec) start_time clock segments_iter ([], [], 1) of
           Inl e \<Rightarrow> Inl e
         | Inr (segments, printed, tick) \<Rightarrow>
             (case asr_write_srt segments of
                Inl e \<Rightarrow> Inl e
              | Inr out \<Rightarrow> Inr (printed, out)))"

section \<open>The specification's clamp\<close>

text \<open>
  \<open>clamp(x, lo, hi)\<close> as the specification means it; the source computes
  \<open>min(max(x, 0.0), 1.0)\<close>.
\<close>

definition clamp :: "pyfloat \<Rightarrow> pyfloat \<Rightarrow> pyfloat \<Rightarrow> pyfloat" where
  "clamp x lo hi = (if f_lt x lo then lo else if f_lt hi x then hi else x)"

section \<open>Blocks and their lines\<close>

text \<open>The entry the loop of \<open>parse_srt\<close> appends for a block it does not skip.\<close>

definition entry_of :: "string \<Rightarrow> entry" where
  "entry_of block =
     (let lines = split_nl block in
      if isdigit (strip (hd lines)) then (lines ! 1, drop 2 lines) else (hd lines, tl lines))"

text \<open>
  The specification's criterion for a block that is kept: it has at least two lines that
  are not empty. (The source counts all lines.)
\<close>

definition two_nonempty_lines :: "string \<Rightarrow> bool" where
  "two_nonempty_lines block \<longleftrightarrow> 2 \<le> length (filter (\<lambda>l. l \<noteq> []) (split_nl block))"

text \<open>A line with a character that is not white space.\<close>

definition nonblank :: "string \<Rightarrow> bool" where
  "nonblank l \<longleftrightarrow> \<not> list_all is_space l"

text \<open>
  A blank-line boundary: a line feed, white space, a line feed. \<open>weave\<close> puts the pieces of
  a text back together, each followed by its boundary.
\<close>

definition boundary :: "string \<Rightarrow> bool" where
  "boundary sep \<longleftrightarrow>
     2 \<le> length sep \<and> hd sep = NL \<and> last sep = NL \<and> list_all is_space sep"

fun weave :: "string list \<Rightarrow> string list \<Rightarrow> string" where
  "weave (b # bs) (s # ss) = b @ s @ weave bs ss"
| "weave bs ss = concat bs"

section \<open>The serialized form of segments\<close>

text \<open>
  A text is unbroken when it holds no carriage return and no blank-line boundary, that is,
  the parser's split leaves it in one piece.
\<close>

definition unbroken :: "string \<Rightarrow> bool" where
  "unbroken t \<longleftrightarrow> CR \<notin> set t \<and> re_split t = [t]"

text \<open>
  The notions below describe what asr.py writes for a list of items, an item being a
  timestamp line and a stripped text: \<open>block_text\<close> is the block of one item as the parser
  will see it, \<open>sep_after\<close> the line feeds that follow it, \<open>ser\<close> the content of the file and
  \<open>blocks_from\<close> its blocks.
\<close>

definition good_line :: "string \<Rightarrow> bool" where
  "good_line l \<longleftrightarrow>
     l \<noteq> [] \<and> NL \<notin> set l \<and> CR \<notin> set l \<and> \<not> is_space (hd l) \<and> \<not> is_space (last l)"

definition body_of :: "string \<Rightarrow> string list" where
  "body_of t = (if t = [] then [] else split_nl t)"

definition block_text :: "int \<Rightarrow> string \<Rightarrow> string \<Rightarrow> string" where
  "block_text i tline t = str_int i @ NL # tline @ (if t = [] then [] else NL # t)"

definition sep_after :: "string \<Rightarrow> string" where
  "sep_after t = (if t = [] then [NL, NL, NL] else [NL, NL])"

fun ser :: "int \<Rightarrow> (string \<times> string) list \<Rightarrow> string" where
  "ser i [] = []"
| "ser i ((tline, t) # items) = block_text i tline t @ sep_after t @ ser (i + 1) items"

fun blocks_from :: "int \<Rightarrow> (string \<times> string) list \<Rightarrow> string list" where
  "blocks_from i [] = []"
| "blocks_from i ((tline, t) # items) = block_text i tline t # blocks_from (i + 1) items"

definition good_item :: "string \<times> string \<Rightarrow> bool" where
  "good_item item \<longleftrightarrow>
     good_line (fst item) \<and> unbroken (snd item) \<and>
     (snd item = [] \<or> (\<not> is_space (hd (snd item)) \<and> \<not> is_space (last (snd item))))"

definition entry_of_item :: "string \<times> string \<Rightarrow> entry" where
  "entry_of_item item = (fst item, body_of (snd item))"

section \<open>Observing the written file\<close>

text \<open>
  Each entry is written by three calls of \<open>f.write\<close>: the index line, the timestamp line
  and the text. The three functions below pick, from the list of the calls' arguments, the
  first, the second and the third of each three.
\<close>

fun index_writes :: "'a list \<Rightarrow> 'a list" where
  "index_writes (a # b # c # rest) = a # index_writes rest"
| "index_writes _ = []"

fun time_writes :: "'a list \<Rightarrow> 'a list" where
  "time_writes (a # b # c # rest) = b # time_writes rest"
| "time_writes _ = []"

fun text_writes :: "'a list \<Rightarrow> 'a list" where
  "text_writes (a # b # c # rest) = c # text_writes rest"
| "text_writes _ = []"

section \<open>A translator for the examples\<close>

text \<open>
  An example of a translator: it puts the line in square brackets, and its state counts the
  calls.
\<close>

definition bracket :: "nat translator" where
  "bracket line n = Inr (''['' @ line @ '']'', Suc n)"

section \<open>Evaluation of the definitions on literals\<close>

lemma replicate_numeral: "replicate (numeral k) x = x # replicate (pred_numeral k) x"
  by (simp add: numeral_eq_Suc)

lemma round_half_even_divide:
  assumes "0 < b"
  shows "round_half_even (of_int a / of_int b) =
     (if 2 * (a mod b) < b then a div b
      else if b < 2 * (a mod b) then a div b + 1
      else if even (a div b) then a div b else a div b + 1)"
proof -
  have fl: "\<lfloor>(of_int a :: rat) / of_int b\<rfloor> = a div b"
    by (rule floor_divide_of_int_eq)
  have "(of_int a :: rat) = of_int (a div b) * of_int b + of_int (a mod b)"
    by (metis div_mult_mod_eq of_int_add of_int_mult)
  then have d: "(of_int a :: rat) / of_int b - of_int (a div b) = of_int (a mod b) / of_int b"
    using assms by (simp add: field_simps)
  have lt: "(of_int (a mod b) :: rat) / of_int b < 1 / 2 \<longleftrightarrow> 2 * (a mod b) < b"
  proof -
    have "(of_int (a mod b) :: rat) / of_int b < 1 / 2 \<longleftrightarrow>
        (of_int (2 * (a mod b)) :: rat) < of_int b"
      using assms by (simp add: field_simps)
    also have "\<dots> \<longleftrightarrow> 2 * (a mod b) < b"
      by (simp only: of_int_less_iff)
    finally show ?thesis .
  qed
  have gt: "1 / 2 < (of_int (a mod b) :: rat) / of_int b \<longleftrightarrow> b < 2 * (a mod b)"
  proof -
    have "1 / 2 < (of_int (a mod b) :: rat) / of_int b \<longleftrightarrow>
        (of_int b :: rat) < of_int (2 * (a mod b))"
      using assms by (simp add: field_simps)
    also have "\<dots> \<longleftrightarrow> b < 2 * (a mod b)"
      by (simp only: of_int_less_iff)
    finally show ?thesis .
  qed
  show ?thesis
    unfolding round_half_even_def Let_def fl d lt gt by simp
qed

lemma round_half_even_numeral [simp]:
  "round_half_even (numeral x / numeral y) =
     (if 2 * (numeral x mod numeral y) < (numeral y :: int) then numeral x div numeral y
      else if (numeral y :: int) < 2 * (numeral x mod numeral y) then numeral x div numeral y + 1
      else if even (numeral x div numeral y :: int) then numeral x div numeral y
      else numeral x div numeral y + 1)"
  "round_half_even (- numeral x / numeral y) =
     (if 2 * (- numeral x mod numeral y) < (numeral y :: int) then - numeral x div numeral y
      else if (numeral y :: int) < 2 * (- numeral x mod numeral y) then - numeral x div numeral y + 1
      else if even (- numeral x div numeral y :: int) then - numeral x div numeral y
      else - numeral x div numeral y + 1)"
  using round_half_even_divide [of "numeral y" "numeral x"]
    round_half_even_divide [of "numeral y" "- numeral x"]
  by simp_all

lemma round_half_even_of_int [simp]: "round_half_even (of_int n) = n"
  by (simp add: round_half_even_def)

lemma round_half_even_simps [simp]:
  "round_half_even 0 = 0" "round_half_even 1 = 1"
  "round_half_even (numeral x) = numeral x" "round_half_even (- numeral x) = - numeral x"
  using round_half_even_of_int [of 0] round_half_even_of_int [of 1]
    round_half_even_of_int [of "numeral x"] round_half_even_of_int [of "- numeral x"]
  by simp_all

lemmas float_eval = to_float_def fl_round_def ilog2_def log2_up.simps
  log2_down.simps pow2_def Let_def
lemmas fmt_eval = format_millis_def fmt_d_def digits.simps digit_char_def str_int_def
  replicate_numeral
lemmas str_eval = strip_def lstrip_def rstrip_def is_space_def is_digit_def isdigit_def

lemma to_float_examples:
  "to_float 0 = Finite 0" "to_float 1000 = Finite 1000" "to_float 2000 = Finite 2000"
  by (simp_all add: float_eval)

section \<open>Lines and blocks\<close>

lemma is_space_NL [simp]: "is_space NL"
  by (simp add: is_space_def)

lemma split_nl_not_Nil [simp]: "split_nl s \<noteq> []"
  by (induction s) (auto split: list.splits)

lemma split_nl_no_NL: "NL \<notin> set a \<Longrightarrow> split_nl a = [a]"
  by (induction a) (auto split: list.splits)

lemma split_nl_append_NL: "NL \<notin> set a \<Longrightarrow> split_nl (a @ NL # b) = a # split_nl b"
  by (induction a) (auto split: list.splits)

lemma parse_block_lines:
  "parse_block block =
     (let lines = split_nl block in
      if length lines < 2 then None
      else if isdigit (strip (hd lines)) then Some (Inr (lines ! 1, drop 2 lines))
      else Some (Inr (hd lines, drop 1 lines)))"
  by (cases "split_nl block") (auto simp: parse_block_def py_index_def Let_def)

section \<open>Index regeneration\<close>

lemma index_writes_write_srt_from:
  "index_writes (write_srt_from i es) = map (\<lambda>j. str_int j @ [NL]) [i..i + int (length es) - 1]"
proof (induction es arbitrary: i)
  case Nil
  then show ?case by simp
next
  case (Cons e es)
  obtain t b where e: "e = (t, b)" by (cases e)
  have "[i..i + int (length (e # es)) - 1] = i # [i + 1..i + 1 + int (length es) - 1]"
    by (simp add: upto_rec1)
  with Cons show ?case by (simp add: e)
qed

lemma index_writes_asr_write_srt_from:
  "asr_write_srt_from i segs = Inr chunks \<Longrightarrow>
   index_writes chunks = map (\<lambda>j. str_int j @ [NL]) [i..i + int (length segs) - 1]"
proof (induction segs arbitrary: i chunks)
  case Nil
  then show ?case by simp
next
  case (Cons seg segs)
  from Cons.prems obtain t1 t2 rest where
    rest: "asr_write_srt_from (i + 1) segs = Inr rest" and
    chunks: "chunks = [str_int i @ [NL], t1 @ '' --> '' @ t2 @ [NL], strip (seg_text seg) @ [NL, NL]] @ rest"
    by (auto split: sum.splits)
  have "[i..i + int (length (seg # segs)) - 1] = i # [i + 1..i + 1 + int (length segs) - 1]"
    by (simp add: upto_rec1)
  with Cons.IH [OF rest] show ?case by (simp add: chunks)
qed

lemma asr_example:
  "asr_write_srt_from 1 [\<lparr>seg_start = Finite 0, seg_end = Finite 1, seg_text = ''a''\<rparr>,
                         \<lparr>seg_start = Finite 1, seg_end = Finite 2, seg_text = ''b''\<rparr>] =
     Inr [''1\<newline>'', ''00:00:00,000 --> 00:00:01,000\<newline>'', ''a\<newline>\<newline>'',
          ''2\<newline>'', ''00:00:01,000 --> 00:00:02,000\<newline>'', ''b\<newline>\<newline>'']"
  by (simp add: format_time_def to_float_examples fmt_eval str_eval)

text \<open>
  C3. For every sequence of entries, of any length, the index lines the serializer of
  translate.py writes are the decimal numbers 1, 2, ... up to the number of entries, in
  that order; the entries carry no index at all, so whatever indices stood in a parsed
  file have no part in it. The same holds for the serializer of asr.py whenever it writes
  the file.
\<close>

theorem index_regeneration:
  "index_writes (write_srt_from 1 es) = map (\<lambda>j. str_int j @ [NL]) [1..int (length es)] \<and>
   (asr_write_srt_from 1 segs = Inr chunks \<longrightarrow>
      index_writes chunks = map (\<lambda>j. str_int j @ [NL]) [1..int (length segs)])"
  using index_writes_write_srt_from [of 1 es] index_writes_asr_write_srt_from [of 1 segs chunks]
  by simp

theorem index_regeneration_witness:
  "asr_write_srt_from 1 [\<lparr>seg_start = Finite 0, seg_end = Finite 1, seg_text = ''a''\<rparr>,
                         \<lparr>seg_start = Finite 1, seg_end = Finite 2, seg_text = ''b''\<rparr>] =
     Inr [''1\<newline>'', ''00:00:00,000 --> 00:00:01,000\<newline>'', ''a\<newline>\<newline>'',
          ''2\<newline>'', ''00:00:01,000 --> 00:00:02,000\<newline>'', ''b\<newline>\<newline>''] \<and>
   index_writes [''1\<newline>'', ''00:00:00,000 --> 00:00:01,000\<newline>'', ''a\<newline>\<newline>'',
          ''2\<newline>'', ''00:00:01,000 --> 00:00:02,000\<newline>'', ''b\<newline>\<newline>''] =
     map (\<lambda>j. str_int j @ [NL]) [1..2]"
  using asr_example
    index_regeneration [of "[]"
      "[\<lparr>seg_start = Finite 0, seg_end = Finite 1, seg_text = ''a''\<rparr>,
        \<lparr>seg_start = Finite 1, seg_end = Finite 2, seg_text = ''b''\<rparr>]"
      "[''1\<newline>'', ''00:00:00,000 --> 00:00:01,000\<newline>'', ''a\<newline>\<newline>'',
        ''2\<newline>'', ''00:00:01,000 --> 00:00:02,000\<newline>'', ''b\<newline>\<newline>'']"]
  by simp


section \<open>The index line of a block\<close>

text \<open>
  C5. For every block of at least two lines: when the first line, stripped, is purely
  numeric, the parser skips it and takes the second line as the timestamp line and the
  lines after it as the text; otherwise the first line is the timestamp line and the rest
  is the text. So a block whose first line is not purely numeric (as no timestamp line is)
  and the same block behind a purely numeric line parse to the same entry.
\<close>

theorem parser_index_tolerance:
  assumes "2 \<le> length (split_nl block)"
  shows "(isdigit (strip (hd (split_nl block))) \<longrightarrow>
            parse_block block = Some (Inr (split_nl block ! 1, drop 2 (split_nl block)))) \<and>
         (\<not> isdigit (strip (hd (split_nl block))) \<longrightarrow>
            parse_block block = Some (Inr (hd (split_nl block), tl (split_nl block))) \<and>
            (isdigit (strip num) \<and> NL \<notin> set num \<longrightarrow>
               parse_block (num @ NL # block) = parse_block block))"
proof -
  from assms obtain l0 l1 ls where lines: "split_nl block = l0 # l1 # ls"
    by (cases "split_nl block"; cases "tl (split_nl block)") auto
  show ?thesis
    by (simp add: parse_block_lines split_nl_append_NL lines)
qed

theorem parser_index_tolerance_witness:
  "2 \<le> length (split_nl ''00:00:01,000 --> 00:00:02,500\<newline>Hello\<newline>world'') \<and>
   \<not> isdigit (strip (hd (split_nl ''00:00:01,000 --> 00:00:02,500\<newline>Hello\<newline>world''))) \<and>
   isdigit (strip ''17'') \<and> NL \<notin> set ''17'' \<and>
   parse_block ''00:00:01,000 --> 00:00:02,500\<newline>Hello\<newline>world'' =
     Some (Inr (''00:00:01,000 --> 00:00:02,500'', [''Hello'', ''world''])) \<and>
   parse_block ''17\<newline>00:00:01,000 --> 00:00:02,500\<newline>Hello\<newline>world'' =
     Some (Inr (''00:00:01,000 --> 00:00:02,500'', [''Hello'', ''world'']))"
proof -
  have l: "split_nl ''00:00:01,000 --> 00:00:02,500\<newline>Hello\<newline>world'' =
      [''00:00:01,000 --> 00:00:02,500'', ''Hello'', ''world'']"
    by simp
  have d: "\<not> isdigit (strip ''00:00:01,000 --> 00:00:02,500'')"
    by (simp add: isdigit_def strip_def lstrip_def rstrip_def is_space_def is_digit_def)
  have n: "isdigit (strip ''17'') \<and> NL \<notin> set ''17''"
    by (simp add: isdigit_def strip_def lstrip_def rstrip_def is_space_def is_digit_def)
  have len: "2 \<le> length (split_nl ''00:00:01,000 --> 00:00:02,500\<newline>Hello\<newline>world'')"
    by (simp only: l) simp
  from parser_index_tolerance [OF len, of "''17''"] d n l show ?thesis
    by simp
qed

section \<open>Entries without text\<close>

text \<open>
  C10. For every block of exactly two lines whose first line is purely numeric, the parsed
  entry has the second line as its timestamp line and no text line; the serializer accepts
  such an entry and writes its index line, its timestamp line and an empty text line
  followed by the blank line.
\<close>

theorem parser_empty_body:
  assumes "split_nl block = [first, second]" and "isdigit (strip first)"
  shows "parse_block block = Some (Inr (second, [])) \<and>
         write_srt_from i [(second, [])] = [str_int i @ [NL], second @ [NL], [NL, NL]]"
  using assms
  by (simp add: parse_block_lines strip_def lstrip_def rstrip_def)

theorem parser_empty_body_witness:
  "split_nl ''7\<newline>00:00:01,000 --> 00:00:02,500'' = [''7'', ''00:00:01,000 --> 00:00:02,500''] \<and>
   isdigit (strip ''7'') \<and>
   parse_block ''7\<newline>00:00:01,000 --> 00:00:02,500'' =
     Some (Inr (''00:00:01,000 --> 00:00:02,500'', [])) \<and>
   write_srt_from 1 [(''00:00:01,000 --> 00:00:02,500'', [])] =
     [''1\<newline>'', ''00:00:01,000 --> 00:00:02,500\<newline>'', ''\<newline>\<newline>'']"
proof -
  have l: "split_nl ''7\<newline>00:00:01,000 --> 00:00:02,500'' = [''7'', ''00:00:01,000 --> 00:00:02,500'']"
    by simp
  have d: "isdigit (strip ''7'')"
    by (simp add: isdigit_def strip_def lstrip_def rstrip_def is_space_def is_digit_def)
  have s: "str_int 1 = ''1''"
    by (simp add: str_int_def digits.simps digit_char_def)
  from parser_empty_body [OF l d, of 1] l d s show ?thesis
    by simp
qed


section \<open>The reparse-translate pipeline\<close>

lemma translate_lines_result:
  "translate_lines tr body acc s calls = Inr (out, s', calls') \<Longrightarrow>
   \<exists>new. out = acc @ new \<and> list_all2 (\<lambda>l l'. strip l = [] \<longrightarrow> l' = []) body new \<and>
         calls' = calls @ filter (\<lambda>l. l \<noteq> []) (map strip body)"
proof (induction body arbitrary: acc s calls)
  case Nil
  then show ?case by simp
next
  case (Cons line body)
  show ?case
  proof (cases "strip line = []")
    case True
    with Cons.prems have "translate_lines tr body (acc @ [[]]) s calls = Inr (out, s', calls')"
      by simp
    from Cons.IH [OF this] True show ?thesis
      by (auto simp: list_all2_Cons1)
  next
    case False
    with Cons.prems obtain t s1 where
      "translate_lines tr body (acc @ [t]) s1 (calls @ [strip line]) = Inr (out, s', calls')"
      by (auto simp: Let_def split: sum.splits)
    from Cons.IH [OF this] False show ?thesis
      by (auto simp: list_all2_Cons1)
  qed
qed

lemma translate_entries_result:
  "translate_entries tr entries acc s calls = Inr (translated, s', calls') \<Longrightarrow>
   \<exists>new. translated = acc @ new \<and>
     list_all2 (\<lambda>e e'. fst e' = fst e \<and>
        list_all2 (\<lambda>l l'. strip l = [] \<longrightarrow> l' = []) (snd e) (snd e')) entries new \<and>
     calls' = calls @ filter (\<lambda>l. l \<noteq> []) (map strip (concat (map snd entries)))"
proof (induction entries arbitrary: acc s calls)
  case Nil
  then show ?case by simp
next
  case (Cons e entries)
  obtain time_line body_lines where e: "e = (time_line, body_lines)" by (cases e)
  from Cons.prems obtain ls s1 calls1 where
    lines: "translate_lines tr body_lines [] s calls = Inr (ls, s1, calls1)" and
    rest: "translate_entries tr entries (acc @ [(time_line, ls)]) s1 calls1 =
      Inr (translated, s', calls')"
    by (auto simp: e split: sum.splits)
  from translate_lines_result [OF lines] have
    ls: "list_all2 (\<lambda>l l'. strip l = [] \<longrightarrow> l' = []) body_lines ls" and
    calls1: "calls1 = calls @ filter (\<lambda>l. l \<noteq> []) (map strip body_lines)"
    by auto
  from Cons.IH [OF rest] ls calls1 show ?case
    by (auto simp: e list_all2_Cons1)
qed

lemma time_writes_write_srt_from:
  "time_writes (write_srt_from i es) = map (\<lambda>e. fst e @ [NL]) es"
  by (induction es arbitrary: i) auto

lemma text_writes_write_srt_from:
  "text_writes (write_srt_from i es) = map (\<lambda>e. strip (join_nl (snd e)) @ [NL, NL]) es"
  by (induction es arbitrary: i) auto

lemma blocks_of_example: "blocks_of ''7\<newline>00:00:01,000 --> 00:00:02,000\<newline>hi\<newline>\<newline>9\<newline>00:00:03,000 --> 00:00:04,000\<newline>yo\<newline>'' =
  [''7\<newline>00:00:01,000 --> 00:00:02,000\<newline>hi'', ''9\<newline>00:00:03,000 --> 00:00:04,000\<newline>yo'']"
  by (simp add: blocks_of_def remove_cr_def str_eval)

lemma parse_srt_example: "parse_srt ''7\<newline>00:00:01,000 --> 00:00:02,000\<newline>hi\<newline>\<newline>9\<newline>00:00:03,000 --> 00:00:04,000\<newline>yo\<newline>'' =
  Inr [(''00:00:01,000 --> 00:00:02,000'', [''hi'']), (''00:00:03,000 --> 00:00:04,000'', [''yo''])]"
  by (simp add: parse_srt_def blocks_of_example parse_block_lines str_eval)

lemma translate_main_example:
  "translate_main (Some bracket) 0
     ''7\<newline>00:00:01,000 --> 00:00:02,000\<newline>hi\<newline>\<newline>9\<newline>00:00:03,000 --> 00:00:04,000\<newline>yo\<newline>'' =
   Inr (''1\<newline>00:00:01,000 --> 00:00:02,000\<newline>[hi]\<newline>\<newline>2\<newline>00:00:03,000 --> 00:00:04,000\<newline>[yo]\<newline>\<newline>'',
        2, [''hi'', ''yo''])"
  by (simp add: translate_main_def parse_srt_example write_srt_def bracket_def str_eval fmt_eval)


text \<open>
  C2. Whenever the reparse-translate pipeline writes its output, the entries it hands to
  the serializer are as many as the parser read, in the same order, each with the
  timestamp line of the entry it comes from, unchanged, and with as many text lines; and
  the timestamp lines written to the file are these, each followed by a line feed.
\<close>

theorem translate_frame:
  assumes "translate_main (Some tr) s srt_text = Inr (out, s', calls)"
  shows "\<exists>entries translated.
           parse_srt srt_text = Inr entries \<and> out = write_srt translated \<and>
           map fst translated = map fst entries \<and>
           map (\<lambda>e. length (snd e)) translated = map (\<lambda>e. length (snd e)) entries \<and>
           time_writes (write_srt_from 1 translated) = map (\<lambda>e. fst e @ [NL]) entries"
proof -
  from assms obtain entries translated where
    p: "parse_srt srt_text = Inr entries" and
    t: "translate_entries tr entries [] s [] = Inr (translated, s', calls)" and
    out: "out = write_srt translated"
    by (auto simp: translate_main_def split: sum.splits)
  from translate_entries_result [OF t] have
    rel: "list_all2 (\<lambda>e e'. fst e' = fst e \<and>
        list_all2 (\<lambda>l l'. strip l = [] \<longrightarrow> l' = []) (snd e) (snd e')) entries translated"
    by simp
  have f: "map fst translated = map fst entries"
    using rel by (induction rule: list_all2_induct) auto
  have l: "map (\<lambda>e. length (snd e)) translated = map (\<lambda>e. length (snd e)) entries"
    using rel by (induction rule: list_all2_induct) (auto dest: list_all2_lengthD)
  have "time_writes (write_srt_from 1 translated) = map (\<lambda>e. fst e @ [NL]) entries"
    using f by (simp add: time_writes_write_srt_from flip: map_map [of "\<lambda>t. t @ [NL]" fst, unfolded comp_def])
  with p out f l show ?thesis by blast
qed

theorem translate_frame_witness:
  "translate_main (Some bracket) 0
     ''7\<newline>00:00:01,000 --> 00:00:02,000\<newline>hi\<newline>\<newline>9\<newline>00:00:03,000 --> 00:00:04,000\<newline>yo\<newline>'' =
   Inr (''1\<newline>00:00:01,000 --> 00:00:02,000\<newline>[hi]\<newline>\<newline>2\<newline>00:00:03,000 --> 00:00:04,000\<newline>[yo]\<newline>\<newline>'',
        2, [''hi'', ''yo'']) \<and>
   (\<exists>entries translated.
      parse_srt ''7\<newline>00:00:01,000 --> 00:00:02,000\<newline>hi\<newline>\<newline>9\<newline>00:00:03,000 --> 00:00:04,000\<newline>yo\<newline>'' = Inr entries \<and>
      ''1\<newline>00:00:01,000 --> 00:00:02,000\<newline>[hi]\<newline>\<newline>2\<newline>00:00:03,000 --> 00:00:04,000\<newline>[yo]\<newline>\<newline>'' = write_srt translated \<and>
      map fst translated = map fst entries \<and>
      map (\<lambda>e. length (snd e)) translated = map (\<lambda>e. length (snd e)) entries \<and>
      time_writes (write_srt_from 1 translated) = map (\<lambda>e. fst e @ [NL]) entries)"
  using translate_main_example translate_frame [OF translate_main_example]
  by (rule conjI)



lemma translate_entries_example:
  "translate_entries bracket [(''00:00:01,000 --> 00:00:02,000'', [''a'', ''  '', '' b''])] [] 0 [] =
     Inr ([(''00:00:01,000 --> 00:00:02,000'', [''[a]'', [], ''[b]''])], 2, [''a'', ''b''])"
  by (simp add: bracket_def str_eval)

text \<open>
  C8. In the loop of the reparse-translate pipeline, the arguments passed to the translator
  are, in order, the stripped text lines that are not empty, each once; the empty string
  is never passed; and a line that is empty after stripping is kept as the empty string at
  its place in the translated lines.
\<close>

theorem empty_line_passthrough:
  assumes "translate_entries tr entries [] s [] = Inr (translated, s', calls)"
  shows "calls = filter (\<lambda>l. l \<noteq> []) (map strip (concat (map snd entries))) \<and>
         [] \<notin> set calls \<and>
         list_all2 (\<lambda>e e'. list_all2 (\<lambda>l l'. strip l = [] \<longrightarrow> l' = []) (snd e) (snd e'))
           entries translated"
proof -
  from translate_entries_result [OF assms] have
    rel: "list_all2 (\<lambda>e e'. fst e' = fst e \<and>
        list_all2 (\<lambda>l l'. strip l = [] \<longrightarrow> l' = []) (snd e) (snd e')) entries translated" and
    calls: "calls = filter (\<lambda>l. l \<noteq> []) (map strip (concat (map snd entries)))"
    by simp_all
  from rel have "list_all2 (\<lambda>e e'. list_all2 (\<lambda>l l'. strip l = [] \<longrightarrow> l' = []) (snd e) (snd e'))
      entries translated"
    by (rule list_all2_mono) simp
  with calls show ?thesis by simp
qed

theorem empty_line_passthrough_witness:
  "translate_entries bracket [(''00:00:01,000 --> 00:00:02,000'', [''a'', ''  '', '' b''])] [] 0 [] =
     Inr ([(''00:00:01,000 --> 00:00:02,000'', [''[a]'', [], ''[b]''])], 2, [''a'', ''b'']) \<and>
   [''a'', ''b''] = filter (\<lambda>l. l \<noteq> [])
     (map strip (concat (map snd [(''00:00:01,000 --> 00:00:02,000'', [''a'', ''  '', '' b''])]))) \<and>
   [] \<notin> set [''a'', ''b''] \<and>
   list_all2 (\<lambda>e e'. list_all2 (\<lambda>l l'. strip l = [] \<longrightarrow> l' = []) (snd e) (snd e'))
     [(''00:00:01,000 --> 00:00:02,000'', [''a'', ''  '', '' b''])]
     [(''00:00:01,000 --> 00:00:02,000'', [''[a]'', [], ''[b]''])]"
  using translate_entries_example empty_line_passthrough [OF translate_entries_example]
  by (rule conjI)



section \<open>Stripping at emission\<close>

lemma lstrip_decomp: "\<exists>pre. s = pre @ lstrip s \<and> list_all is_space pre"
  unfolding lstrip_def
  by (rule exI [of _ "takeWhile is_space s"]) (auto simp: list_all_iff dest: set_takeWhileD)

lemma rstrip_decomp: "\<exists>suf. s = rstrip s @ suf \<and> list_all is_space suf"
proof -
  have "rev s = takeWhile is_space (rev s) @ dropWhile is_space (rev s)" by simp
  then have "s = rev (dropWhile is_space (rev s)) @ rev (takeWhile is_space (rev s))"
    by (metis rev_append rev_rev_ident)
  moreover have "list_all is_space (rev (takeWhile is_space (rev s)))"
    by (auto simp: list_all_iff dest: set_takeWhileD)
  ultimately show ?thesis unfolding rstrip_def by blast
qed

lemma strip_decomp:
  "\<exists>pre suf. s = pre @ strip s @ suf \<and> list_all is_space pre \<and> list_all is_space suf"
proof -
  obtain pre where pre: "s = pre @ lstrip s" "list_all is_space pre"
    using lstrip_decomp by blast
  obtain suf where suf: "lstrip s = rstrip (lstrip s) @ suf" "list_all is_space suf"
    using rstrip_decomp by blast
  have "s = pre @ strip s @ suf"
    unfolding strip_def using pre(1) suf(1) by simp
  with pre(2) suf(2) show ?thesis by blast
qed

lemma strip_ends: "strip s = [] \<or> (\<not> is_space (hd (strip s)) \<and> \<not> is_space (last (strip s)))"
proof (cases "strip s = []")
  case True
  then show ?thesis by simp
next
  case False
  define t where "t = lstrip s"
  have r: "strip s = rstrip t" by (simp add: strip_def t_def)
  obtain suf where suf: "t = rstrip t @ suf"
    using rstrip_decomp by blast
  from False r have ne: "rstrip t \<noteq> []" by simp
  then have "t \<noteq> []" using suf by auto
  then have "\<not> is_space (hd t)"
    unfolding t_def lstrip_def by (rule hd_dropWhile)
  moreover have "hd t = hd (rstrip t)"
    using suf ne by (metis hd_append2)
  moreover have "\<not> is_space (last (rstrip t))"
  proof -
    from ne have d: "dropWhile is_space (rev t) \<noteq> []" by (simp add: rstrip_def)
    have "last (rstrip t) = hd (dropWhile is_space (rev t))"
      unfolding rstrip_def using d by (simp add: last_rev)
    with hd_dropWhile [OF d] show ?thesis by simp
  qed
  ultimately show ?thesis using r by simp
qed

lemma text_writes_asr_write_srt_from:
  "asr_write_srt_from i segs = Inr chunks \<Longrightarrow>
   text_writes chunks = map (\<lambda>seg. strip (seg_text seg) @ [NL, NL]) segs"
proof (induction segs arbitrary: i chunks)
  case Nil
  then show ?case by simp
next
  case (Cons seg segs)
  from Cons.prems obtain t1 t2 rest where
    rest: "asr_write_srt_from (i + 1) segs = Inr rest" and
    chunks: "chunks = [str_int i @ [NL], t1 @ '' --> '' @ t2 @ [NL], strip (seg_text seg) @ [NL, NL]] @ rest"
    by (auto split: sum.splits)
  with Cons.IH [OF rest] show ?case by simp
qed

lemma asr_padded_example:
  "asr_write_srt_from 1
     [\<lparr>seg_start = Finite 0, seg_end = Finite 1, seg_text = ''  Hello \<newline> world  ''\<rparr>] =
     Inr [''1\<newline>'', ''00:00:00,000 --> 00:00:01,000\<newline>'', ''Hello \<newline> world\<newline>\<newline>'']"
  by (simp add: format_time_def to_float_examples fmt_eval str_eval)

lemma strip_examples:
  "strip ''  Hello \<newline> world  '' = ''Hello \<newline> world''"
  "strip (join_nl ['' a '', '' b '']) = ''a \<newline> b''"
  by (simp_all add: str_eval)

text \<open>
  C9, as amended. Both serializers strip the text of an entry as a whole: what is written
  is the joined text lines (the segment's text), stripped, followed by two line feeds. The
  stripped form of a text is the text without a run of white space at its start and a run
  of white space at its end, and it is empty or has a character that is not white space
  at either end: all the white space at the two ends of the whole text is removed, and
  nothing else. White space inside, also at the end of a line that is not the last or at
  the start of a line that is not the first, stays.
\<close>

theorem block_stripping:
  "text_writes (write_srt_from i entries) =
     map (\<lambda>e. strip (join_nl (snd e)) @ [NL, NL]) entries \<and>
   (asr_write_srt_from i segs = Inr chunks \<longrightarrow>
      text_writes chunks = map (\<lambda>seg. strip (seg_text seg) @ [NL, NL]) segs) \<and>
   (\<exists>pre suf. s = pre @ strip s @ suf \<and> list_all is_space pre \<and> list_all is_space suf) \<and>
   (strip s = [] \<or> (\<not> is_space (hd (strip s)) \<and> \<not> is_space (last (strip s))))"
  using text_writes_write_srt_from text_writes_asr_write_srt_from strip_decomp strip_ends
  by blast

theorem block_stripping_witness:
  "asr_write_srt_from 1
     [\<lparr>seg_start = Finite 0, seg_end = Finite 1, seg_text = ''  Hello \<newline> world  ''\<rparr>] =
     Inr [''1\<newline>'', ''00:00:00,000 --> 00:00:01,000\<newline>'', ''Hello \<newline> world\<newline>\<newline>''] \<and>
   text_writes [''1\<newline>'', ''00:00:00,000 --> 00:00:01,000\<newline>'', ''Hello \<newline> world\<newline>\<newline>''] =
     map (\<lambda>seg. strip (seg_text seg) @ [NL, NL])
       [\<lparr>seg_start = Finite 0, seg_end = Finite 1, seg_text = ''  Hello \<newline> world  ''\<rparr>] \<and>
   text_writes (write_srt_from 1 [(''00:00:01,000 --> 00:00:02,000'', ['' a '', '' b ''])]) =
     map (\<lambda>e. strip (join_nl (snd e)) @ [NL, NL])
       [(''00:00:01,000 --> 00:00:02,000'', ['' a '', '' b ''])] \<and>
   strip ''  Hello \<newline> world  '' = ''Hello \<newline> world'' \<and>
   strip (join_nl ['' a '', '' b '']) = ''a \<newline> b'' \<and>
   \<not> is_space (hd (strip ''  Hello \<newline> world  '')) \<and>
   \<not> is_space (last (strip ''  Hello \<newline> world  ''))"
proof -
  let ?S = "[\<lparr>seg_start = Finite 0, seg_end = Finite 1, seg_text = ''  Hello \<newline> world  ''\<rparr>]"
  let ?C = "[''1\<newline>'', ''00:00:00,000 --> 00:00:01,000\<newline>'', ''Hello \<newline> world\<newline>\<newline>'']"
  let ?E = "[(''00:00:01,000 --> 00:00:02,000'', ['' a '', '' b ''])]"
  note t = block_stripping [of 1 ?E ?S ?C "''  Hello \<newline> world  ''"]
  from t have b: "text_writes (write_srt_from 1 ?E) =
      map (\<lambda>e. strip (join_nl (snd e)) @ [NL, NL]) ?E"
    by (rule conjunct1)
  from t asr_padded_example have a: "text_writes ?C =
      map (\<lambda>seg. strip (seg_text seg) @ [NL, NL]) ?S"
    by blast
  have ne: "strip ''  Hello \<newline> world  '' \<noteq> []"
    by (simp only: strip_examples) simp
  from t ne have e: "\<not> is_space (hd (strip ''  Hello \<newline> world  '')) \<and>
      \<not> is_space (last (strip ''  Hello \<newline> world  ''))"
    by blast
  show ?thesis
    by (intro conjI) (rule asr_padded_example, rule a, rule b, rule strip_examples,
        rule strip_examples, rule e [THEN conjunct1], rule e [THEN conjunct2])
qed

text \<open>
  The claim as stated fails: an entry with the text lines \<open>"a "\<close> and \<open>" b"\<close> is written with
  the space at the end of the first line and the space at the start of the second.
\<close>

theorem per_line_stripping_counterexample:
  "text_writes (write_srt_from 1 [(''00:00:01,000 --> 00:00:02,000'', [''a '', '' b''])]) =
     [''a \<newline> b\<newline>\<newline>''] \<and>
   join_nl (map strip [''a '', '' b'']) @ [NL, NL] = ''a\<newline>b\<newline>\<newline>'' \<and>
   text_writes (write_srt_from 1 [(''00:00:01,000 --> 00:00:02,000'', [''a '', '' b''])]) \<noteq>
     [join_nl (map strip [''a '', '' b'']) @ [NL, NL]]"
  by (simp add: str_eval)


section \<open>The blocks of a text\<close>

lemma nonblank_Cons: "nonblank (c # l) \<longleftrightarrow> \<not> is_space c \<or> nonblank l"
  by (simp add: nonblank_def)

lemma nonblank_not_Nil: "nonblank l \<Longrightarrow> l \<noteq> []"
  by (auto simp: nonblank_def)

lemma hd_split_nl: "hd (split_nl t) = takeWhile (\<lambda>c. c \<noteq> NL) t"
  by (induction t) (auto split: list.splits)

lemma split_nl_Cons:
  "split_nl (c # t) =
     (if c = NL then [] # split_nl t else (c # hd (split_nl t)) # tl (split_nl t))"
  by (cases "split_nl t") auto

lemma tl_split_nl_Cons: "c \<noteq> NL \<Longrightarrow> tl (split_nl (c # t)) = tl (split_nl t)"
  by (auto split: list.splits)

lemma star_nl_None_takeWhile: "star_nl t = None \<Longrightarrow> NL \<notin> set (takeWhile is_space t)"
  by (induction t) (auto split: option.splits if_splits)

lemma star_nl_Some:
  "star_nl t = Some k \<Longrightarrow> 0 < k \<and> k \<le> length t \<and> star_nl (drop k t) = None"
proof (induction t arbitrary: k)
  case Nil
  then show ?case by simp
next
  case (Cons c t)
  show ?case
  proof (cases "star_nl t")
    case None
    with Cons.prems show ?thesis by (auto split: if_splits)
  next
    case (Some j)
    with Cons.prems have "k = Suc j" by (auto split: if_splits)
    with Cons.IH [OF Some] show ?thesis by simp
  qed
qed

lemma first_line_nonblank:
  "NL \<notin> set (takeWhile is_space t) \<Longrightarrow> t \<noteq> [] \<Longrightarrow> \<not> is_space (last t) \<Longrightarrow>
   nonblank (takeWhile (\<lambda>c. c \<noteq> NL) t)"
proof (induction t)
  case Nil
  then show ?case by simp
next
  case (Cons c t)
  show ?case
  proof (cases "is_space c")
    case False
    then have "c \<noteq> NL" by auto
    with False show ?thesis by (simp add: nonblank_Cons)
  next
    case True
    with Cons.prems have c: "c \<noteq> NL" and t: "t \<noteq> []" "NL \<notin> set (takeWhile is_space t)"
      by auto
    with Cons.prems have "\<not> is_space (last t)" by simp
    from Cons.IH [OF t(2) t(1) this] c show ?thesis by (simp add: nonblank_Cons)
  qed
qed

lemma re_split_lines:
  "s = [] \<or> \<not> is_space (last s) \<Longrightarrow>
   \<exists>b bs. re_split s = b # bs \<and> hd (split_nl b) = hd (split_nl s) \<and>
     list_all nonblank (tl (split_nl b)) \<and>
     list_all (\<lambda>b'. list_all nonblank (split_nl b')) bs"
proof (induction s rule: re_split.induct)
  case 1
  then show ?case by simp
next
  case (2 c cs)
  from "2.prems" have last: "cs = [] \<or> \<not> is_space (last cs)"
    by (auto split: if_splits)
  show ?case
  proof (cases "if c = NL then star_nl cs else None")
    case None
    from "2.IH"(1) [OF None last] obtain b bs where
      b: "re_split cs = b # bs" "hd (split_nl b) = hd (split_nl cs)"
        "list_all nonblank (tl (split_nl b))"
        "list_all (\<lambda>b'. list_all nonblank (split_nl b')) bs"
      by blast
    have r: "re_split (c # cs) = (c # b) # bs"
      using None b(1) by simp
    show ?thesis
    proof (cases "c = NL")
      case False
      then show ?thesis using r b by (simp add: split_nl_Cons del: split_nl.simps)
    next
      case True
      with None have star: "star_nl cs = None" by simp
      from True "2.prems" have cs: "cs \<noteq> []" "\<not> is_space (last cs)"
        by (auto split: if_splits)
      have "nonblank (hd (split_nl cs))"
        unfolding hd_split_nl
        by (rule first_line_nonblank [OF star_nl_None_takeWhile [OF star] cs])
      with b(2) have "nonblank (hd (split_nl b))" by simp
      then have "list_all nonblank (split_nl b)"
        using b(3) by (cases "split_nl b") auto
      with True r b(4) show ?thesis by (simp add: split_nl_Cons del: split_nl.simps)
    qed
  next
    case (Some k)
    then have c: "c = NL" and star: "star_nl cs = Some k"
      by (auto split: if_splits)
    from star_nl_Some [OF star] have k: "0 < k" "k \<le> length cs" "star_nl (drop k cs) = None"
      by simp_all
    from c "2.prems" have cs: "cs \<noteq> []" "\<not> is_space (last cs)"
      by (auto split: if_splits)
    have dk: "drop k cs \<noteq> []"
    proof
      assume e: "drop k cs = []"
      with k have "k = length cs" by simp
      moreover from star have "is_space (cs ! (k - 1))"
      proof (induction cs arbitrary: k)
        case Nil
        then show ?case by simp
      next
        case (Cons a cs)
        then show ?case
          by (cases "star_nl cs") (auto split: if_splits simp: nth_Cons split: nat.splits)
      qed
      ultimately show False using cs by (simp add: last_conv_nth)
    qed
    then have lastd: "\<not> is_space (last (drop k cs))"
      using cs by simp
    from "2.IH"(2) [OF Some] dk lastd obtain b bs where
      b: "re_split (drop k cs) = b # bs" "hd (split_nl b) = hd (split_nl (drop k cs))"
        "list_all nonblank (tl (split_nl b))"
        "list_all (\<lambda>b'. list_all nonblank (split_nl b')) bs"
      by blast
    have "nonblank (hd (split_nl (drop k cs)))"
      unfolding hd_split_nl
      by (rule first_line_nonblank [OF star_nl_None_takeWhile [OF k(3)] dk lastd])
    with b(2) have "nonblank (hd (split_nl b))" by simp
    then have "list_all nonblank (split_nl b)"
      using b(3) by (cases "split_nl b") auto
    moreover have "re_split (c # cs) = [] # b # bs"
      using Some b(1) by simp
    ultimately show ?thesis using b(4) c by (simp add: split_nl_Cons del: split_nl.simps(2))
  qed
qed


lemma blocks_of_lines:
  "strip (remove_cr text) \<noteq> [] \<Longrightarrow>
   list_all (\<lambda>b. list_all nonblank (split_nl b)) (blocks_of text)"
proof -
  assume ne: "strip (remove_cr text) \<noteq> []"
  define s where "s = strip (remove_cr text)"
  from strip_ends [of "remove_cr text"] ne
  have ends: "\<not> is_space (hd s)" "\<not> is_space (last s)" and s: "s \<noteq> []"
    by (simp_all add: s_def)
  from re_split_lines [of s] ends obtain b bs where
    b: "re_split s = b # bs" "hd (split_nl b) = hd (split_nl s)"
      "list_all nonblank (tl (split_nl b))"
      "list_all (\<lambda>b'. list_all nonblank (split_nl b')) bs"
    by blast
  have "nonblank (hd (split_nl s))"
    unfolding hd_split_nl using s ends(1) by (cases s) (auto simp: nonblank_Cons)
  with b(2) have "nonblank (hd (split_nl b))" by simp
  then have "list_all nonblank (split_nl b)"
    using b(3) by (cases "split_nl b") auto
  with b(1,4) show ?thesis by (simp add: blocks_of_def s_def)
qed

lemma blocks_of_blank: "strip (remove_cr text) = [] \<Longrightarrow> blocks_of text = [[]]"
  by (simp add: blocks_of_def)

lemma parse_block_entry:
  "parse_block block = (if length (split_nl block) < 2 then None else Some (Inr (entry_of block)))"
  by (cases "split_nl block"; cases "tl (split_nl block)")
    (auto simp: parse_block_lines entry_of_def Let_def)

lemma parse_blocks_eq:
  "parse_blocks blocks entries =
     Inr (entries @ map entry_of (filter (\<lambda>b. 2 \<le> length (split_nl b)) blocks))"
  by (induction blocks arbitrary: entries) (auto simp: parse_block_entry)

lemma two_nonempty_lines_blocks:
  "b \<in> set (blocks_of text) \<Longrightarrow> two_nonempty_lines b \<longleftrightarrow> 2 \<le> length (split_nl b)"
proof (cases "strip (remove_cr text) = []")
  case True
  assume "b \<in> set (blocks_of text)"
  with True have "b = []" by (simp add: blocks_of_blank)
  then show ?thesis by (simp add: two_nonempty_lines_def)
next
  case False
  assume "b \<in> set (blocks_of text)"
  with blocks_of_lines [OF False] have "list_all nonblank (split_nl b)"
    by (simp add: list_all_iff)
  then have "filter (\<lambda>l. l \<noteq> []) (split_nl b) = split_nl b"
    by (auto simp: list_all_iff filter_id_conv dest: nonblank_not_Nil)
  then show ?thesis by (simp add: two_nonempty_lines_def)
qed

lemma re_split_Cons_ex: "\<exists>b bs. re_split s = b # bs"
  by (induction s rule: re_split.induct) (auto split: option.splits list.splits)

lemma star_nl_Some_take:
  "star_nl t = Some k \<Longrightarrow> 0 < k \<and> list_all is_space (take k t) \<and> last (take k t) = NL"
proof (induction t arbitrary: k)
  case Nil
  then show ?case by simp
next
  case (Cons c t)
  show ?case
  proof (cases "star_nl t")
    case None
    with Cons.prems show ?thesis by (auto split: if_splits)
  next
    case (Some j)
    with Cons.prems have k: "k = Suc j" and c: "is_space c" by (auto split: if_splits)
    from Cons.IH [OF Some] have j: "0 < j" "list_all is_space (take j t)" "last (take j t) = NL"
      by simp_all
    from j(1) star_nl_Some [OF Some] have "take j t \<noteq> []" by auto
    with j c show ?thesis by (simp add: k)
  qed
qed

lemma weave_Cons_head: "weave ((c # b) # bs) seps = c # weave (b # bs) seps"
  by (cases seps) auto

lemma re_split_weave:
  "\<exists>seps. length seps + 1 = length (re_split s) \<and> weave (re_split s) seps = s \<and>
          list_all boundary seps"
proof (induction s rule: re_split.induct)
  case 1
  show ?case by (intro exI [of _ "[]"]) simp
next
  case (2 c cs)
  show ?case
  proof (cases "if c = NL then star_nl cs else None")
    case None
    from "2.IH"(1) [OF None] obtain seps where
      seps: "length seps + 1 = length (re_split cs)" "weave (re_split cs) seps = cs"
        "list_all boundary seps"
      by blast
    obtain b bs where b: "re_split cs = b # bs"
      using re_split_Cons_ex [of cs] by blast
    have "re_split (c # cs) = (c # b) # bs"
      using None b by simp
    with seps b show ?thesis
      by (intro exI [of _ seps]) (simp add: weave_Cons_head)
  next
    case (Some k)
    then have c: "c = NL" and star: "star_nl cs = Some k"
      by (auto split: if_splits)
    from "2.IH"(2) [OF Some] obtain seps where
      seps: "length seps + 1 = length (re_split (drop k cs))"
        "weave (re_split (drop k cs)) seps = drop k cs" "list_all boundary seps"
      by blast
    from star_nl_Some_take [OF star] have
      t: "0 < k" "list_all is_space (take k cs)" "last (take k cs) = NL"
      by simp_all
    from t(1) star_nl_Some [OF star] have ne: "take k cs \<noteq> []" by auto
    have bd: "boundary (NL # take k cs)"
      using t ne by (cases "take k cs") (auto simp: boundary_def)
    have r: "re_split (NL # cs) = [] # re_split (drop k cs)"
      using star by simp
    show ?thesis
      using seps bd
      by (intro exI [of _ "(NL # take k cs) # seps"]) (simp add: c r del: re_split.simps(2))
  qed
qed

lemma blocks_of_crlf:
  "blocks_of
     (''1'' @ [CR, NL] @ ''00:00:01,000 --> 00:00:02,000'' @ [CR, NL] @ ''hi'' @ [CR, NL, CR, NL] @
       ''stray'' @ [CR, NL]) =
     [''1\<newline>00:00:01,000 --> 00:00:02,000\<newline>hi''] @ [''stray'']"
  by (simp add: blocks_of_def remove_cr_def str_eval)

lemma parse_blocks_crlf:
  "parse_blocks [''1\<newline>00:00:01,000 --> 00:00:02,000\<newline>hi''] [] =
     Inr [(''00:00:01,000 --> 00:00:02,000'', [''hi''])]"
  by (simp add: parse_block_lines str_eval)

text \<open>
  C6. For every input text the parser returns, without an exception, the entries of the
  blocks that have at least two non-empty lines, in the order of the blocks; every other
  block is skipped. The blocks are the pieces between the blank-line boundaries of the
  text with its carriage returns removed and the white space at its two ends dropped: that
  text is the blocks woven with as many boundaries as there are blocks but one, each
  boundary a line feed, white space and a line feed; and no line of a block is blank
  (unless the whole text is), so no block holds a boundary. The empty text gives no entry,
  and a last block of a single line is dropped.
\<close>

theorem malformed_block_leniency:
  "parse_srt text = Inr (map entry_of (filter two_nonempty_lines (blocks_of text))) \<and>
   (\<exists>seps pre suf.
      filter (\<lambda>c. c \<noteq> CR) text = pre @ weave (blocks_of text) seps @ suf \<and>
      list_all is_space pre \<and> list_all is_space suf \<and>
      (weave (blocks_of text) seps = [] \<or>
         (\<not> is_space (hd (weave (blocks_of text) seps)) \<and>
          \<not> is_space (last (weave (blocks_of text) seps)))) \<and>
      length seps + 1 = length (blocks_of text) \<and> list_all boundary seps) \<and>
   (blocks_of text = [[]] \<or>
      list_all (\<lambda>b. list_all nonblank (split_nl b)) (blocks_of text)) \<and>
   parse_srt [] = Inr [] \<and>
   (blocks_of text = blocks @ [block] \<and> NL \<notin> set block \<longrightarrow>
      parse_srt text = parse_blocks blocks [])"
proof -
  have "filter two_nonempty_lines (blocks_of text) =
      filter (\<lambda>b. 2 \<le> length (split_nl b)) (blocks_of text)"
    by (rule filter_cong) (simp_all add: two_nonempty_lines_blocks)
  then have 1: "parse_srt text = Inr (map entry_of (filter two_nonempty_lines (blocks_of text)))"
    by (simp add: parse_srt_def parse_blocks_eq)
  define s where "s = strip (remove_cr text)"
  from re_split_weave [of s] obtain seps where
    seps: "length seps + 1 = length (blocks_of text)" "weave (blocks_of text) seps = s"
      "list_all boundary seps"
    by (auto simp: blocks_of_def s_def)
  from strip_decomp [of "remove_cr text"] obtain pre suf where
    ps: "remove_cr text = pre @ s @ suf" "list_all is_space pre" "list_all is_space suf"
    by (auto simp: s_def)
  have ends: "s = [] \<or> (\<not> is_space (hd s) \<and> \<not> is_space (last s))"
    unfolding s_def by (rule strip_ends)
  have 2: "\<exists>seps pre suf.
      filter (\<lambda>c. c \<noteq> CR) text = pre @ weave (blocks_of text) seps @ suf \<and>
      list_all is_space pre \<and> list_all is_space suf \<and>
      (weave (blocks_of text) seps = [] \<or>
         (\<not> is_space (hd (weave (blocks_of text) seps)) \<and>
          \<not> is_space (last (weave (blocks_of text) seps)))) \<and>
      length seps + 1 = length (blocks_of text) \<and> list_all boundary seps"
    using seps ps ends
    by (intro exI [of _ seps] exI [of _ pre] exI [of _ suf]) (simp add: remove_cr_def)
  have 3: "blocks_of text = [[]] \<or>
      list_all (\<lambda>b. list_all nonblank (split_nl b)) (blocks_of text)"
    using blocks_of_blank [of "text"] blocks_of_lines [of "text"] by blast
  have 4: "parse_srt [] = Inr []"
    by (simp add: parse_srt_def blocks_of_def remove_cr_def strip_def lstrip_def rstrip_def
        parse_block_lines)
  have 5: "parse_srt text = parse_blocks blocks []"
    if "blocks_of text = blocks @ [block]" "NL \<notin> set block"
    using that by (simp add: parse_srt_def parse_blocks_eq split_nl_no_NL)
  from 1 2 3 4 5 show ?thesis by blast
qed

theorem malformed_block_leniency_witness:
  "blocks_of
     (''1'' @ [CR, NL] @ ''00:00:01,000 --> 00:00:02,000'' @ [CR, NL] @ ''hi'' @ [CR, NL, CR, NL] @
       ''stray'' @ [CR, NL]) =
     [''1\<newline>00:00:01,000 --> 00:00:02,000\<newline>hi''] @ [''stray''] \<and>
   NL \<notin> set ''stray'' \<and>
   parse_srt
     (''1'' @ [CR, NL] @ ''00:00:01,000 --> 00:00:02,000'' @ [CR, NL] @ ''hi'' @ [CR, NL, CR, NL] @
       ''stray'' @ [CR, NL]) =
     Inr [(''00:00:01,000 --> 00:00:02,000'', [''hi''])]"
proof -
  let ?T = "''1'' @ [CR, NL] @ ''00:00:01,000 --> 00:00:02,000'' @ [CR, NL] @ ''hi'' @
      [CR, NL, CR, NL] @ ''stray'' @ [CR, NL]"
  have n: "NL \<notin> set ''stray''" by simp
  note m = malformed_block_leniency
      [of ?T "[''1\<newline>00:00:01,000 --> 00:00:02,000\<newline>hi'']" "''stray''",
      THEN conjunct2, THEN conjunct2, THEN conjunct2, THEN conjunct2,
      rule_format, OF conjI, OF blocks_of_crlf n]
  show ?thesis
    by (intro conjI) (rule blocks_of_crlf, rule n, rule trans [OF m parse_blocks_crlf])
qed

section \<open>Progress telemetry\<close>

lemma epsilon_value: "epsilon = Finite (1152921504606847 / 1152921504606846976)"
  by (simp add: epsilon_def float_eval)

lemma epsilon_pos: "f_lt (Finite 0) epsilon"
  by (simp add: epsilon_value)

lemma min_max_clamp: "py_min (py_max x (Finite 0)) (Finite 1) = clamp x (Finite 0) (Finite 1)"
  by (cases x) (auto simp: py_min_def py_max_def clamp_def)

lemma clamp_range:
  "\<not> f_lt (Finite 1) (clamp x (Finite 0) (Finite 1)) \<and> \<not> f_lt (clamp x (Finite 0) (Finite 1)) (Finite 0)"
  by (cases x) (auto simp: clamp_def)

lemma f_div_ok: "y \<noteq> Finite 0 \<Longrightarrow> \<exists>q. f_div x y = Inr q"
  by (cases x; cases y) auto

lemma f_div_zero: "f_div x (Finite 0) = Inl ZeroDivisionError"
  by simp

lemma positive_not_zero: "f_lt (Finite 0) t \<Longrightarrow> t \<noteq> Finite 0"
  by auto

lemma elapsed_not_zero: "py_max d epsilon \<noteq> Finite 0"
  by (cases d) (auto simp: py_max_def epsilon_value)

lemma elapsed_floor: "\<not> f_lt (py_max d epsilon) epsilon"
  by (cases d) (auto simp: py_max_def epsilon_value)

lemma progress_sample_eq:
  assumes "f_lt (Finite 0) total_sec"
  shows "\<exists>q speed.
           f_div (seg_end seg) total_sec = Inr q \<and>
           f_div (seg_end seg) (py_max (f_sub now start_time) epsilon) = Inr speed \<and>
           progress_sample total_sec start_time now seg =
             Inr (clamp q (Finite 0) (Finite 1), seg_end seg, total_sec, speed)"
proof -
  from f_div_ok [OF positive_not_zero [OF assms]] obtain q where
    q: "f_div (seg_end seg) total_sec = Inr q" by blast
  from f_div_ok [OF elapsed_not_zero] obtain speed where
    speed: "f_div (seg_end seg) (py_max (f_sub now start_time) epsilon) = Inr speed" by blast
  from q speed show ?thesis
    by (simp add: progress_sample_def Let_def min_max_clamp)
qed

lemma consume_positive:
  assumes "f_lt (Finite 0) total_sec"
  shows "\<exists>samples.
           consume total_sec start_time clock segs (segments, printed, tick) =
             Inr (segments @ segs, printed @ samples, tick + length segs) \<and>
           list_all2 (\<lambda>(seg, k) smp. progress_sample total_sec start_time (clock k) seg = Inr smp)
             (zip segs [tick..<tick + length segs]) samples"
proof (induction segs arbitrary: segments printed tick)
  case Nil
  then show ?case by simp
next
  case (Cons seg segs)
  from progress_sample_eq [OF assms] obtain smp where
    smp: "progress_sample total_sec start_time (clock tick) seg = Inr smp" by blast
  from Cons [of "segments @ [seg]" "printed @ [smp]" "Suc tick"] obtain samples where
    rest: "consume total_sec start_time clock segs (segments @ [seg], printed @ [smp], Suc tick) =
        Inr ((segments @ [seg]) @ segs, (printed @ [smp]) @ samples, Suc tick + length segs)"
      "list_all2 (\<lambda>(seg, k) smp. progress_sample total_sec start_time (clock k) seg = Inr smp)
        (zip segs [Suc tick..<Suc tick + length segs]) samples"
    by blast
  have "[tick..<tick + length (seg # segs)] = tick # [Suc tick..<Suc tick + length segs]"
    by (subst upt_rec) simp
  with rest smp assms show ?case
    by (intro exI [of _ "smp # samples"]) simp
qed

lemma consume_suppressed:
  "\<not> f_lt (Finite 0) total_sec \<Longrightarrow>
   consume total_sec start_time clock segs (segments, printed, tick) =
     Inr (segments @ segs, printed, tick)"
  by (induction segs arbitrary: segments) auto

lemma ratio_example:
  "progress_sample (Finite 10) (Finite 100) (Finite 102)
     \<lparr>seg_start = Finite 12, seg_end = Finite 15, seg_text = ''a''\<rparr> =
   Inr (Finite 1, Finite 15, Finite 10, Finite (15 / 2))"
  by (simp add: progress_sample_def py_min_def py_max_def epsilon_value float_eval)


text \<open>
  C7. When the total duration is strictly positive, one sample is printed for each
  incoming segment, in order, and none otherwise (a total that is zero, negative or not a
  number). The sample of a segment has \<open>ratio = clamp(segment.end / total, 0, 1)\<close>, which
  is never above 1 nor below 0, and \<open>speed = segment.end / elapsed\<close> with
  \<open>elapsed = max(now - start_time, epsilon)\<close>, which is never below \<open>epsilon\<close>, the positive
  number \<open>0.001\<close>; neither division raises. With a total of 10 and a segment ending at 15
  the ratio is 1.
\<close>

theorem progress_telemetry:
  "(f_lt (Finite 0) total_sec \<longrightarrow>
      (\<exists>q speed samples.
         f_div (seg_end seg) total_sec = Inr q \<and>
         f_div (seg_end seg) (py_max (f_sub now start_time) epsilon) = Inr speed \<and>
         progress_sample total_sec start_time now seg =
           Inr (clamp q (Finite 0) (Finite 1), seg_end seg, total_sec, speed) \<and>
         \<not> f_lt (Finite 1) (clamp q (Finite 0) (Finite 1)) \<and>
         \<not> f_lt (clamp q (Finite 0) (Finite 1)) (Finite 0) \<and>
         \<not> f_lt (py_max (f_sub now start_time) epsilon) epsilon \<and>
         consume total_sec start_time clock segs (segments, printed, tick) =
           Inr (segments @ segs, printed @ samples, tick + length segs) \<and>
         list_all2
           (\<lambda>(seg, k) smp. progress_sample total_sec start_time (clock k) seg = Inr smp)
           (zip segs [tick..<tick + length segs]) samples)) \<and>
   (\<not> f_lt (Finite 0) total_sec \<longrightarrow>
      consume total_sec start_time clock segs (segments, printed, tick) =
        Inr (segments @ segs, printed, tick)) \<and>
   f_lt (Finite 0) epsilon"
proof (intro conjI impI)
  assume pos: "f_lt (Finite 0) total_sec"
  from progress_sample_eq [OF pos] obtain q speed where
    "f_div (seg_end seg) total_sec = Inr q"
    "f_div (seg_end seg) (py_max (f_sub now start_time) epsilon) = Inr speed"
    "progress_sample total_sec start_time now seg =
       Inr (clamp q (Finite 0) (Finite 1), seg_end seg, total_sec, speed)"
    by blast
  moreover from consume_positive [OF pos] obtain samples where
    "consume total_sec start_time clock segs (segments, printed, tick) =
       Inr (segments @ segs, printed @ samples, tick + length segs)"
    "list_all2
       (\<lambda>(seg, k) smp. progress_sample total_sec start_time (clock k) seg = Inr smp)
       (zip segs [tick..<tick + length segs]) samples"
    by blast
  ultimately show "\<exists>q speed samples.
         f_div (seg_end seg) total_sec = Inr q \<and>
         f_div (seg_end seg) (py_max (f_sub now start_time) epsilon) = Inr speed \<and>
         progress_sample total_sec start_time now seg =
           Inr (clamp q (Finite 0) (Finite 1), seg_end seg, total_sec, speed) \<and>
         \<not> f_lt (Finite 1) (clamp q (Finite 0) (Finite 1)) \<and>
         \<not> f_lt (clamp q (Finite 0) (Finite 1)) (Finite 0) \<and>
         \<not> f_lt (py_max (f_sub now start_time) epsilon) epsilon \<and>
         consume total_sec start_time clock segs (segments, printed, tick) =
           Inr (segments @ segs, printed @ samples, tick + length segs) \<and>
         list_all2
           (\<lambda>(seg, k) smp. progress_sample total_sec start_time (clock k) seg = Inr smp)
           (zip segs [tick..<tick + length segs]) samples"
    using clamp_range elapsed_floor by blast
next
  assume "\<not> f_lt (Finite 0) total_sec"
  then show "consume total_sec start_time clock segs (segments, printed, tick) =
      Inr (segments @ segs, printed, tick)"
    by (rule consume_suppressed)
next
  show "f_lt (Finite 0) epsilon" by (rule epsilon_pos)
qed

theorem progress_telemetry_witness:
  "f_lt (Finite 0) (Finite 10) \<and>
   progress_sample (Finite 10) (Finite 100) (Finite 102)
     \<lparr>seg_start = Finite 12, seg_end = Finite 15, seg_text = ''a''\<rparr> =
     Inr (Finite 1, Finite 15, Finite 10, Finite (15 / 2)) \<and>
   (\<exists>samples.
      consume (Finite 10) (Finite 100) (\<lambda>k. Finite 102)
        [\<lparr>seg_start = Finite 12, seg_end = Finite 15, seg_text = ''a''\<rparr>] ([], [], 1) =
        Inr ([\<lparr>seg_start = Finite 12, seg_end = Finite 15, seg_text = ''a''\<rparr>], samples, 2) \<and>
      length samples = 1) \<and>
   \<not> f_lt (Finite 0) (Finite 0) \<and>
   consume (Finite 0) (Finite 100) (\<lambda>k. Finite 102)
     [\<lparr>seg_start = Finite 12, seg_end = Finite 15, seg_text = ''a''\<rparr>] ([], [], 1) =
     Inr ([\<lparr>seg_start = Finite 12, seg_end = Finite 15, seg_text = ''a''\<rparr>], [], 1)"
proof -
  let ?seg = "\<lparr>seg_start = Finite 12, seg_end = Finite 15, seg_text = ''a''\<rparr>"
  have p: "f_lt (Finite 0) (Finite 10)" by simp
  have n: "\<not> f_lt (Finite 0) (Finite 0)" by simp
  from progress_telemetry [of "Finite 10" ?seg "Finite 102" "Finite 100" "\<lambda>k. Finite 102"
      "[?seg]" "[]" "[]" 1, THEN conjunct1, rule_format, OF p]
  have a: "\<exists>samples.
      consume (Finite 10) (Finite 100) (\<lambda>k. Finite 102) [?seg] ([], [], 1) =
        Inr ([?seg], samples, 2) \<and> length samples = 1"
    by (auto dest: list_all2_lengthD)
  from progress_telemetry [of "Finite 0" ?seg "Finite 102" "Finite 100" "\<lambda>k. Finite 102"
      "[?seg]" "[]" "[]" 1, THEN conjunct2, THEN conjunct1, rule_format, OF n]
  have b: "consume (Finite 0) (Finite 100) (\<lambda>k. Finite 102) [?seg] ([], [], 1) =
      Inr ([?seg], [], 1)"
    by simp
  show ?thesis
    by (intro conjI) (rule p, rule ratio_example, rule a, rule n, rule b)
qed


section \<open>The timestamp codec\<close>

lemma round_half_even_nearest:
  "\<bar>of_int (round_half_even p) - p\<bar> \<le> 1 / 2 \<and>
   (\<bar>of_int (round_half_even p) - p\<bar> = 1 / 2 \<longrightarrow> even (round_half_even p))"
proof -
  define f where "f = \<lfloor>p\<rfloor>"
  have b: "of_int f \<le> p" "p < of_int f + 1"
    unfolding f_def by linarith+
  have r: "round_half_even p =
      (if p - of_int f < 1 / 2 then f else if 1 / 2 < p - of_int f then f + 1
       else if even f then f else f + 1)"
    by (simp add: round_half_even_def f_def Let_def)
  show ?thesis
    unfolding r using b by (auto simp: abs_if)
qed

lemma round_half_even_ge: "of_int n \<le> x \<Longrightarrow> n \<le> round_half_even x"
proof -
  assume "of_int n \<le> x"
  then have "n \<le> \<lfloor>x\<rfloor>" by (simp add: le_floor_iff)
  then show ?thesis
    unfolding round_half_even_def Let_def by auto
qed

lemma pow2_pos: "0 < pow2 e"
  by (simp add: pow2_def)

lemma pow2_add: "pow2 (a + b) = pow2 a * pow2 b"
proof -
  have "pow2 e = power_int 2 e" for e
    by (simp add: pow2_def power_int_def power_one_over inverse_eq_divide)
  then show ?thesis by (simp add: power_int_add)
qed

lemma pow2_nat: "0 \<le> e \<Longrightarrow> pow2 e = 2 ^ nat e"
  by (simp add: pow2_def)

lemma log2_up_le: "1 \<le> y \<Longrightarrow> 0 \<le> log2_up y \<and> 2 ^ nat (log2_up y) \<le> y"
proof (induction y rule: log2_up.induct)
  case (1 x)
  show ?case
  proof (cases "x < 2")
    case True
    with "1.prems" show ?thesis by (simp add: log2_up.simps)
  next
    case False
    then have "1 \<le> x / 2" by simp
    from "1.IH" [OF False this] have k: "0 \<le> log2_up (x / 2)" "2 ^ nat (log2_up (x / 2)) \<le> x / 2"
      by simp_all
    have "log2_up x = 1 + log2_up (x / 2)"
      using False by (simp add: log2_up.simps)
    moreover have "nat (1 + log2_up (x / 2)) = Suc (nat (log2_up (x / 2)))"
      using k(1) by simp
    ultimately show ?thesis using k by simp
  qed
qed

lemma fl_round_hundred_hours:
  assumes "360000000 \<le> y"
  shows "360000000 \<le> fl_round y"
proof -
  define q where "q = max (ilog2 \<bar>y\<bar> - 52) (- 1074)"
  from assms have y: "\<bar>y\<bar> = y" "y \<noteq> 0" "1 \<le> y" by simp_all
  have fl: "fl_round y = of_int (round_half_even (y / pow2 q)) * pow2 q"
    using y by (simp add: fl_round_def q_def Let_def)
  show ?thesis
  proof (cases "q \<le> 9")
    case True
    define N :: int where "N = 703125 * 2 ^ nat (9 - q)"
    have "pow2 9 = pow2 (9 - q) * pow2 q"
      using pow2_add [of "9 - q" q] by simp
    then have "(512 :: rat) = 2 ^ nat (9 - q) * pow2 q"
      using True by (simp add: pow2_nat [of "9 - q"]) (simp add: pow2_def)
    then have "(360000000 :: rat) = of_int N * pow2 q"
      by (simp add: N_def mult.commute)
    then have a: "of_int N = 360000000 / pow2 q"
      using pow2_pos [of q] by (simp add: field_simps)
    have "of_int N \<le> y / pow2 q"
      unfolding a using assms pow2_pos [of q] by (simp add: divide_right_mono)
    then have "N \<le> round_half_even (y / pow2 q)"
      by (rule round_half_even_ge)
    then have "of_int N * pow2 q \<le> of_int (round_half_even (y / pow2 q)) * pow2 q"
      using pow2_pos [of q] by (simp add: mult_right_mono)
    then show ?thesis
      using a pow2_pos [of q] by (simp add: fl field_simps)
  next
    case False
    then have q: "10 \<le> q" by simp
    then have e: "ilog2 y = q + 52"
      using y by (simp add: q_def max_def split: if_splits)
    have "ilog2 y = log2_up y" using y by (simp add: ilog2_def)
    with log2_up_le [OF y(3)] e have "2 ^ nat (q + 52) \<le> y" by simp
    moreover have "pow2 (q + 52) = pow2 q * 2 ^ 52"
      using pow2_add [of q 52] by (simp add: pow2_def)
    moreover have "pow2 (q + 52) = 2 ^ nat (q + 52)"
      using q by (simp add: pow2_nat)
    ultimately have "of_int (2 ^ 52) \<le> y / pow2 q"
      using pow2_pos [of q] by (simp add: field_simps)
    then have "2 ^ 52 \<le> round_half_even (y / pow2 q)"
      by (rule round_half_even_ge)
    then have "(2 ^ 52 :: rat) \<le> of_int (round_half_even (y / pow2 q))"
      by (metis of_int_le_iff of_int_numeral of_int_power)
    then have A: "2 ^ 52 * pow2 q \<le> of_int (round_half_even (y / pow2 q)) * pow2 q"
      using pow2_pos [of q] by (simp add: mult_right_mono)
    have B: "(360000000 :: rat) \<le> 2 ^ 52 * pow2 q"
    proof -
      from q have "10 \<le> nat q" by simp
      then have "(2 :: rat) ^ 10 \<le> 2 ^ nat q"
        by (rule power_increasing) simp
      then have "(2 :: rat) ^ 10 \<le> pow2 q"
        using q by (simp only: pow2_nat)
      then have "(2 :: rat) ^ 52 * 2 ^ 10 \<le> 2 ^ 52 * pow2 q"
        by (simp only: mult_le_cancel_left_pos zero_less_power zero_less_numeral)
      then show ?thesis by simp
    qed
    show ?thesis unfolding fl by (rule order_trans [OF B A])
  qed
qed


lemma fl_round_nonneg: "0 \<le> y \<Longrightarrow> 0 \<le> fl_round y"
proof (cases "y = 0")
  case True
  then show ?thesis by (simp add: fl_round_def)
next
  case False
  assume "0 \<le> y"
  define q where "q = max (ilog2 \<bar>y\<bar> - 52) (- 1074)"
  have "of_int 0 \<le> y / pow2 q"
    using \<open>0 \<le> y\<close> pow2_pos [of q] by simp
  then have "0 \<le> round_half_even (y / pow2 q)"
    by (rule round_half_even_ge)
  then show ?thesis
    using False pow2_pos [of q] by (simp add: fl_round_def q_def Let_def)
qed

lemma f_mul_Finite: "f_mul (Finite x) (Finite k) = Finite p \<Longrightarrow> p = fl_round (x * k)"
  by (simp add: to_float_def Let_def split: if_splits)

lemma digit_char_decimal: "d < 10 \<Longrightarrow> digit_char d \<in> set ''0123456789''"
  unfolding digit_char_def by (rule nth_mem) simp

lemma digits_decimal: "set (digits n) \<subseteq> set ''0123456789''"
proof (induction n rule: digits.induct)
  case (1 n)
  show ?case
  proof (cases "n < 10")
    case True
    then show ?thesis
      using digit_char_decimal [of n] by (subst digits.simps) simp
  next
    case False
    have "n mod 10 < 10" by simp
    with "1.IH" [OF False] False digit_char_decimal [of "n mod 10"] show ?thesis
      by (subst digits.simps) simp
  qed
qed

lemma digits_not_Nil: "digits n \<noteq> []"
  by (subst digits.simps) simp

lemma digits_length_le: "n < 10 ^ k \<Longrightarrow> 0 < k \<Longrightarrow> length (digits n) \<le> k"
proof (induction n arbitrary: k rule: digits.induct)
  case (1 n)
  show ?case
  proof (cases "n < 10")
    case True
    with "1.prems" show ?thesis by (subst digits.simps) simp
  next
    case False
    from "1.prems" obtain j where k: "k = Suc j" by (cases k) auto
    with "1.prems" False have j: "0 < j" by (cases j) auto
    from "1.prems" k have "n div 10 < 10 ^ j"
      by (simp add: less_mult_imp_div_less mult.commute)
    from "1.IH" [OF False this j] k False show ?thesis
      by (subst digits.simps) simp
  qed
qed

lemma digits_length_gt: "10 ^ k \<le> n \<Longrightarrow> k < length (digits n)"
proof (induction n arbitrary: k rule: digits.induct)
  case (1 n)
  show ?case
  proof (cases k)
    case 0
    then show ?thesis using digits_not_Nil [of n] by (cases "digits n") auto
  next
    case (Suc j)
    have "(10::nat) \<le> 10 * 10 ^ j" by simp
    moreover from "1.prems" Suc have "10 * 10 ^ j \<le> n" by simp
    ultimately have False: "\<not> n < 10" by linarith
    from "1.prems" Suc have "10 ^ j \<le> n div 10"
      by (simp add: less_eq_div_iff_mult_less_eq mult.commute)
    from "1.IH" [OF False this] Suc False show ?thesis
      by (subst digits.simps) simp
  qed
qed

lemma fmt_d_length:
  assumes "0 \<le> n" and "n < 10 ^ w" and "0 < w"
  shows "length (fmt_d w n) = w"
proof -
  from assms(1,2) have "int (nat n) < int (10 ^ w)" by simp
  then have "nat n < 10 ^ w" by (simp only: of_nat_less_iff)
  from digits_length_le [OF this assms(3)] assms(1) show ?thesis
    by (simp add: fmt_d_def Let_def)
qed

lemma fmt_d_hours:
  assumes "0 \<le> h"
  shows "fmt_d 2 h = (if h < 10 then CHR ''0'' # digits (nat h) else digits (nat h))"
proof (cases "h < 10")
  case True
  with assms have "nat h < 10" by simp
  then have "digits (nat h) = [digit_char (nat h)]"
    by (subst digits.simps) simp
  with True assms show ?thesis
    by (simp add: fmt_d_def Let_def replicate_numeral)
next
  case False
  then have "10 ^ 1 \<le> nat h" by simp
  from digits_length_gt [OF this] False assms show ?thesis
    by (simp add: fmt_d_def Let_def)
qed

lemma format_millis_fields:
  assumes "0 \<le> millis"
  shows "millis = ((millis div 3600000 * 60 + millis mod 3600000 div 60000) * 60 +
             millis mod 60000 div 1000) * 1000 + millis mod 1000 \<and>
         length (fmt_d 2 (millis mod 3600000 div 60000)) = 2 \<and>
         length (fmt_d 2 (millis mod 60000 div 1000)) = 2 \<and>
         length (fmt_d 3 (millis mod 1000)) = 3"
proof -
  define h where "h = millis div 3600000"
  define r where "r = millis mod 3600000"
  define m where "m = r div 60000"
  define t where "t = millis mod 60000"
  define s where "s = t div 1000"
  define u where "u = millis mod 1000"
  have r: "millis = h * 3600000 + r" "0 \<le> r" "r < 3600000"
    by (simp_all add: r_def h_def)
  have tr: "r mod 60000 = t"
    unfolding r_def t_def by (rule mod_mod_cancel) simp
  have r2: "r = m * 60000 + t"
    unfolding m_def using tr by (metis div_mult_mod_eq)
  have t: "0 \<le> t" "t < 60000"
    by (simp_all add: t_def)
  have tm: "t mod 1000 = u"
    unfolding t_def u_def by (rule mod_mod_cancel) simp
  have t2: "t = s * 1000 + u"
    unfolding s_def using tm by (metis div_mult_mod_eq)
  have u: "0 \<le> u" "u < 1000"
    by (simp_all add: u_def)
  have "millis = h * 3600000 + (m * 60000 + (s * 1000 + u))"
    using r(1) r2 t2 by simp
  then have 1: "millis = ((h * 60 + m) * 60 + s) * 1000 + u"
    by (simp add: algebra_simps)
  have "0 \<le> m" "m < 100"
    using r r2 t by linarith+
  then have "0 \<le> m" "m < 10 ^ 2"
    by simp_all
  then have 2: "length (fmt_d 2 m) = 2"
    by (rule fmt_d_length) simp
  have "0 \<le> s" "s < 100"
    using t t2 u by linarith+
  then have "0 \<le> s" "s < 10 ^ 2"
    by simp_all
  then have 3: "length (fmt_d 2 s) = 2"
    by (rule fmt_d_length) simp
  have "u < 10 ^ 3"
    using u by simp
  with u(1) have 4: "length (fmt_d 3 u) = 3"
    by (rule fmt_d_length) simp
  from 1 2 3 4 show ?thesis unfolding h_def m_def s_def u_def r_def t_def by blast
qed

lemma to_float_literals:
  "to_float (36612005 / 10000) = Finite (4025532521369305 / 1099511627776)"
  "to_float (4025532521369305 / 1099511627776 * 1000) = Finite (7322401 / 2)"
  "to_float (1 / 16 * 1000) = Finite (125 / 2)"
  "to_float (360000 * 1000) = Finite 360000000"
  by (simp_all add: float_eval)

lemma format_time_examples:
  "format_time (Finite 0) = Inr ''00:00:00,000''"
  "format_time (Finite (4025532521369305 / 1099511627776)) = Inr ''01:01:01,200''"
  "format_time (Finite (1 / 16)) = Inr ''00:00:00,062''"
  "format_time (Finite 360000) = Inr ''100:00:00,000''"
  using to_float_literals to_float_examples by (simp_all add: format_time_def fmt_eval)

text \<open>
  C4, as amended. \<open>format_time\<close> multiplies the seconds by 1000 in binary64 arithmetic and
  rounds the product to the nearest integer, a tie to the even one (not upwards); it
  formats the milliseconds as hours, minutes, seconds and milliseconds, zero-padded to 2, 2,
  2 and 3 digits, the hours with all their digits and no wrap-around. In particular
  \<open>format_time(0) = "00:00:00,000"\<close> and \<open>format_time(3661.2005) = "01:01:01,200"\<close>, and for
  every \<open>x \<ge> 3600 * 100\<close> whose product is finite the hours field has at least three
  digits, the minutes and seconds two and the milliseconds three.
\<close>

theorem timestamp_codec:
  "format_time (Finite 0) = Inr ''00:00:00,000'' \<and>
   to_float (36612005 / 10000) = Finite (4025532521369305 / 1099511627776) \<and>
   format_time (Finite (4025532521369305 / 1099511627776)) = Inr ''01:01:01,200'' \<and>
   (f_mul (Finite x) (Finite 1000) = Finite p \<longrightarrow>
      p = fl_round (x * 1000) \<and>
      format_time (Finite x) = Inr (format_millis (round_half_even p)) \<and>
      \<bar>of_int (round_half_even p) - p\<bar> \<le> 1 / 2 \<and>
      (\<bar>of_int (round_half_even p) - p\<bar> = 1 / 2 \<longrightarrow> even (round_half_even p)) \<and>
      (0 \<le> x \<longrightarrow>
         (let millis = round_half_even p;
              hours = millis div 3600000;
              minutes = (millis mod 3600000) div 60000;
              secs = (millis mod 60000) div 1000;
              ms = millis mod 1000
          in 0 \<le> millis \<and>
             format_millis millis =
               fmt_d 2 hours @ '':'' @ fmt_d 2 minutes @ '':'' @ fmt_d 2 secs @ '','' @ fmt_d 3 ms \<and>
             millis = ((hours * 60 + minutes) * 60 + secs) * 1000 + ms \<and>
             fmt_d 2 hours =
               (if hours < 10 then CHR ''0'' # digits (nat hours) else digits (nat hours)) \<and>
             length (fmt_d 2 minutes) = 2 \<and> length (fmt_d 2 secs) = 2 \<and>
             length (fmt_d 3 ms) = 3 \<and>
             (360000 \<le> x \<longrightarrow> 100 \<le> hours \<and> 3 \<le> length (fmt_d 2 hours)))))"
proof (intro conjI impI)
  show "format_time (Finite 0) = Inr ''00:00:00,000''"
    by (rule format_time_examples)
  show "to_float (36612005 / 10000) = Finite (4025532521369305 / 1099511627776)"
    by (rule to_float_literals)
  show "format_time (Finite (4025532521369305 / 1099511627776)) = Inr ''01:01:01,200''"
    by (rule format_time_examples)
next
  assume mul: "f_mul (Finite x) (Finite 1000) = Finite p"
  then show p: "p = fl_round (x * 1000)" by (rule f_mul_Finite)
  from mul show "format_time (Finite x) = Inr (format_millis (round_half_even p))"
    by (simp add: format_time_def)
  show "\<bar>of_int (round_half_even p) - p\<bar> \<le> 1 / 2"
    using round_half_even_nearest by blast
  show "even (round_half_even p)" if "\<bar>of_int (round_half_even p) - p\<bar> = 1 / 2"
    using that round_half_even_nearest by blast
  assume x: "0 \<le> x"
  define millis where "millis = round_half_even p"
  have "0 \<le> p" unfolding p using x by (intro fl_round_nonneg) simp
  then have "of_int 0 \<le> p" by simp
  then have m0: "0 \<le> millis" unfolding millis_def by (rule round_half_even_ge)
  have h0: "0 \<le> millis div 3600000"
    using m0 by (simp add: pos_imp_zdiv_nonneg_iff)
  have big: "100 \<le> millis div 3600000 \<and> 3 \<le> length (fmt_d 2 (millis div 3600000))"
    if "360000 \<le> x"
  proof -
    from that have "360000000 \<le> x * 1000" by simp
    then have "360000000 \<le> p" unfolding p by (rule fl_round_hundred_hours)
    then have "of_int 360000000 \<le> p" by simp
    then have "360000000 \<le> millis" unfolding millis_def by (rule round_half_even_ge)
    then have h: "100 \<le> millis div 3600000"
      by (simp add: pos_imp_zdiv_pos_iff zdiv_mono1 [of 360000000 millis 3600000, simplified])
    then have "10 ^ 2 \<le> nat (millis div 3600000)" by simp
    from digits_length_gt [OF this] h h0 show ?thesis
      by (simp add: fmt_d_hours)
  qed
  from format_millis_fields [OF m0] fmt_d_hours [OF h0] m0 big
  show "let millis = round_half_even p;
              hours = millis div 3600000;
              minutes = (millis mod 3600000) div 60000;
              secs = (millis mod 60000) div 1000;
              ms = millis mod 1000
          in 0 \<le> millis \<and>
             format_millis millis =
               fmt_d 2 hours @ '':'' @ fmt_d 2 minutes @ '':'' @ fmt_d 2 secs @ '','' @ fmt_d 3 ms \<and>
             millis = ((hours * 60 + minutes) * 60 + secs) * 1000 + ms \<and>
             fmt_d 2 hours =
               (if hours < 10 then CHR ''0'' # digits (nat hours) else digits (nat hours)) \<and>
             length (fmt_d 2 minutes) = 2 \<and> length (fmt_d 2 secs) = 2 \<and>
             length (fmt_d 3 ms) = 3 \<and>
             (360000 \<le> x \<longrightarrow> 100 \<le> hours \<and> 3 \<le> length (fmt_d 2 hours))"
    unfolding Let_def millis_def [symmetric] format_millis_def by blast
qed

theorem timestamp_codec_witness:
  "f_mul (Finite 360000) (Finite 1000) = Finite 360000000 \<and>
   (0::rat) \<le> 360000 \<and> (360000::rat) \<le> 360000 \<and>
   format_time (Finite 360000) = Inr ''100:00:00,000'' \<and>
   100 \<le> round_half_even 360000000 div 3600000 \<and>
   3 \<le> length (fmt_d 2 (round_half_even 360000000 div 3600000))"
proof -
  have mul: "f_mul (Finite 360000) (Finite 1000) = Finite 360000000"
    using to_float_literals(4) by simp
  have a: "(0::rat) \<le> 360000" and b: "(360000::rat) \<le> 360000" by simp_all
  from timestamp_codec [of 360000 360000000, THEN conjunct2, THEN conjunct2, THEN conjunct2,
      rule_format, OF mul]
  have "0 \<le> (360000::rat) \<longrightarrow>
     (let millis = round_half_even 360000000;
          hours = millis div 3600000;
          minutes = (millis mod 3600000) div 60000;
          secs = (millis mod 60000) div 1000;
          ms = millis mod 1000
      in 0 \<le> millis \<and>
         format_millis millis =
           fmt_d 2 hours @ '':'' @ fmt_d 2 minutes @ '':'' @ fmt_d 2 secs @ '','' @ fmt_d 3 ms \<and>
         millis = ((hours * 60 + minutes) * 60 + secs) * 1000 + ms \<and>
         fmt_d 2 hours =
           (if hours < 10 then CHR ''0'' # digits (nat hours) else digits (nat hours)) \<and>
         length (fmt_d 2 minutes) = 2 \<and> length (fmt_d 2 secs) = 2 \<and>
         length (fmt_d 3 ms) = 3 \<and>
         ((360000::rat) \<le> 360000 \<longrightarrow> 100 \<le> hours \<and> 3 \<le> length (fmt_d 2 hours)))"
    by blast
  with a b have c: "100 \<le> round_half_even 360000000 div 3600000 \<and>
      3 \<le> length (fmt_d 2 (round_half_even 360000000 div 3600000))"
    unfolding Let_def by blast
  show ?thesis
    using mul a b format_time_examples(4) c by blast
qed

text \<open>
  The claim as stated fails at its own example: the float \<open>3661.2005\<close> times 1000 is exactly
  3661200.5 in binary64, and the tie goes to the even 3661200. Likewise 0.0625 seconds are
  62.5 milliseconds and are written as 062.
\<close>

theorem half_up_counterexample:
  "to_float (36612005 / 10000) = Finite (4025532521369305 / 1099511627776) \<and>
   format_time (Finite (4025532521369305 / 1099511627776)) = Inr ''01:01:01,200'' \<and>
   format_time (Finite (4025532521369305 / 1099511627776)) \<noteq> Inr ''01:01:01,201'' \<and>
   f_mul (Finite (1 / 16)) (Finite 1000) = Finite (125 / 2) \<and>
   format_time (Finite (1 / 16)) = Inr ''00:00:00,062''"
  using to_float_literals format_time_examples by simp


section \<open>The round trip\<close>

lemma re_split_not_Nil [simp]: "re_split s \<noteq> []"
  by (induction s rule: re_split.induct) (auto split: option.splits list.splits)

lemma re_split_Cons:
  "re_split (c # cs) =
     (case (if c = NL then star_nl cs else None) of
        Some k \<Rightarrow> [] # re_split (drop k cs)
      | None \<Rightarrow> (c # hd (re_split cs)) # tl (re_split cs))"
  by (cases "re_split cs") (auto split: option.splits)

lemma star_nl_append:
  "star_nl a = None \<Longrightarrow> \<not> list_all is_space a \<Longrightarrow> star_nl (a @ b) = None"
  by (induction a) (auto split: option.splits if_splits)

lemma star_nl_nonspace: "s \<noteq> [] \<Longrightarrow> \<not> is_space (hd s) \<Longrightarrow> star_nl s = None"
  by (cases s) auto

lemma last_nonspace_not_all: "a \<noteq> [] \<Longrightarrow> \<not> is_space (last a) \<Longrightarrow> \<not> list_all is_space a"
  by (auto simp: list_all_iff)

lemma re_split_single_Cons:
  assumes "re_split (c # cs) = [c # cs]"
  shows "re_split cs = [cs] \<and> (c = NL \<longrightarrow> star_nl cs = None)"
proof (cases "if c = NL then star_nl cs else None")
  case None
  with assms have "(c # hd (re_split cs)) # tl (re_split cs) = [c # cs]"
    by (simp add: re_split_Cons del: re_split.simps(2))
  then have "hd (re_split cs) = cs" "tl (re_split cs) = []" by simp_all
  then have "re_split cs = [cs]" by (cases "re_split cs") auto
  with None show ?thesis by (auto split: if_splits)
next
  case (Some k)
  with assms show ?thesis by (simp add: re_split_Cons del: re_split.simps(2))
qed

lemma re_split_no_NL: "NL \<notin> set a \<Longrightarrow> re_split a = [a]"
  by (induction a) (auto simp: re_split_Cons simp del: re_split.simps(2))

lemma unsplit_join:
  assumes "a = [] \<or> \<not> is_space (last a)" and "re_split a = [a]" and "re_split b = [b]"
    and "b \<noteq> []" and "\<not> is_space (hd b)"
  shows "re_split (a @ NL # b) = [a @ NL # b]"
  using assms(1,2)
proof (induction a)
  case Nil
  from star_nl_nonspace [OF assms(4,5)] assms(3) show ?case
    by (simp add: re_split_Cons del: re_split.simps(2))
next
  case (Cons c a)
  from re_split_single_Cons [OF Cons.prems(2)] have
    a: "re_split a = [a]" and star: "c = NL \<longrightarrow> star_nl a = None"
    by simp_all
  from Cons.prems(1) have last: "a = [] \<or> \<not> is_space (last a)"
    by (auto split: if_splits)
  from Cons.IH [OF last a] have IH: "re_split (a @ NL # b) = [a @ NL # b]" .
  show ?case
  proof (cases "c = NL")
    case False
    with IH show ?thesis by (simp add: re_split_Cons del: re_split.simps(2))
  next
    case True
    with Cons.prems(1) have "a \<noteq> []" "\<not> is_space (last a)" by (auto split: if_splits)
    then have "\<not> list_all is_space a" by (rule last_nonspace_not_all)
    with star True have "star_nl (a @ NL # b) = None" by (simp add: star_nl_append)
    with True IH show ?thesis by (simp add: re_split_Cons del: re_split.simps(2))
  qed
qed

lemma split_at_sep:
  assumes "a = [] \<or> \<not> is_space (last a)" and "re_split a = [a]"
    and "w = [NL] \<or> w = [NL, NL]"
    and "rest \<noteq> []" and "\<not> is_space (hd rest)"
  shows "re_split (a @ NL # w @ rest) = a # re_split rest"
  using assms(1,2)
proof (induction a)
  case Nil
  from star_nl_nonspace [OF assms(4,5)] assms(3) have "star_nl (w @ rest) = Some (length w)"
    by auto
  then show ?case by (simp add: re_split_Cons del: re_split.simps(2))
next
  case (Cons c a)
  from re_split_single_Cons [OF Cons.prems(2)] have
    a: "re_split a = [a]" and star: "c = NL \<longrightarrow> star_nl a = None"
    by simp_all
  from Cons.prems(1) have last: "a = [] \<or> \<not> is_space (last a)"
    by (auto split: if_splits)
  from Cons.IH [OF last a] have IH: "re_split (a @ NL # w @ rest) = a # re_split rest" .
  show ?case
  proof (cases "c = NL")
    case False
    with IH show ?thesis by (simp add: re_split_Cons del: re_split.simps(2))
  next
    case True
    with Cons.prems(1) have "a \<noteq> []" "\<not> is_space (last a)" by (auto split: if_splits)
    then have "\<not> list_all is_space a" by (rule last_nonspace_not_all)
    with star True have "star_nl (a @ NL # w @ rest) = None" by (simp add: star_nl_append)
    with True IH show ?thesis by (simp add: re_split_Cons del: re_split.simps(2))
  qed
qed

lemma dropWhile_rev_last: "s \<noteq> [] \<Longrightarrow> \<not> P (last s) \<Longrightarrow> dropWhile P (rev s) = rev s"
  by (cases s rule: rev_cases) auto

lemma strip_id: "s = [] \<or> (\<not> is_space (hd s) \<and> \<not> is_space (last s)) \<Longrightarrow> strip s = s"
proof (cases s)
  case Nil
  then show ?thesis by (simp add: strip_def lstrip_def rstrip_def)
next
  case (Cons c cs)
  assume "s = [] \<or> (\<not> is_space (hd s) \<and> \<not> is_space (last s))"
  with Cons have h: "\<not> is_space c" and l: "\<not> is_space (last s)" and ne: "s \<noteq> []"
    by simp_all
  have "lstrip s = s" using Cons h by (simp add: lstrip_def)
  moreover have "rstrip s = s"
    using dropWhile_rev_last [of s is_space, OF ne l] by (simp add: rstrip_def)
  ultimately show ?thesis by (simp add: strip_def)
qed

lemma strip_strip: "strip (strip s) = strip s"
  using strip_ends [of s] by (rule strip_id)

lemma strip_append_spaces:
  assumes "s \<noteq> []" and "\<not> is_space (hd s)" and "\<not> is_space (last s)" and "list_all is_space w"
  shows "strip (s @ w) = s"
proof -
  obtain c cs where s: "s = c # cs" using assms(1) by (cases s) auto
  with assms(2) have "lstrip (s @ w) = s @ w" by (simp add: lstrip_def)
  moreover have "rstrip (s @ w) = s"
  proof -
    have "dropWhile is_space (rev w @ rev s) = dropWhile is_space (rev s)"
      using assms(4) by (simp add: dropWhile_append list_all_iff)
    then show ?thesis
      using dropWhile_rev_last [of s is_space, OF assms(1,3)] by (simp add: rstrip_def)
  qed
  ultimately show ?thesis by (simp add: strip_def)
qed

lemma join_nl_Cons: "ls \<noteq> [] \<Longrightarrow> join_nl (l # ls) = l @ NL # join_nl ls"
  by (cases ls) auto

lemma join_split_nl: "join_nl (split_nl t) = t"
proof (induction t)
  case Nil
  then show ?case by simp
next
  case (Cons c t)
  obtain l ls where ls: "split_nl t = l # ls"
    using split_nl_not_Nil [of t] by (cases "split_nl t") auto
  show ?case
  proof (cases "c = NL")
    case True
    with Cons show ?thesis by (simp add: join_nl_Cons)
  next
    case False
    with Cons ls show ?thesis by (cases ls) auto
  qed
qed

lemma is_digit_not_space: "is_digit c \<Longrightarrow> \<not> is_space c"
  by (auto simp: is_digit_def is_space_def)

lemma digit_char_is_digit: "d < 10 \<Longrightarrow> is_digit (digit_char d)"
  using digit_char_decimal [of d] by (simp only: is_digit_def) blast

lemma digits_is_digit: "list_all is_digit (digits n)"
proof (induction n rule: digits.induct)
  case (1 n)
  show ?case
  proof (cases "n < 10")
    case True
    then show ?thesis
      using digit_char_is_digit [of n] by (subst digits.simps) simp
  next
    case False
    have "n mod 10 < 10" by simp
    with "1.IH" [OF False] False digit_char_is_digit [of "n mod 10"] show ?thesis
      by (subst digits.simps) simp
  qed
qed

lemma digits_no_space: "list_all (\<lambda>c. \<not> is_space c) (digits n)"
  using digits_is_digit [of n] by (auto simp: list_all_iff dest: is_digit_not_space)

lemma fmt_d_no_space: "list_all (\<lambda>c. \<not> is_space c) (fmt_d w n)"
proof -
  have "\<not> is_space CHR ''0''" "\<not> is_space CHR ''-''"
    by (simp_all add: is_space_def)
  then show ?thesis
    using digits_no_space [of "nat n"] digits_no_space [of "nat (- n)"]
    by (auto simp: fmt_d_def Let_def list_all_iff)
qed

lemma fmt_d_not_Nil: "fmt_d w n \<noteq> []"
  using digits_not_Nil by (simp add: fmt_d_def Let_def)

lemma format_millis_no_space: "list_all (\<lambda>c. \<not> is_space c) (format_millis m)"
proof -
  have "\<not> is_space CHR '':''" "\<not> is_space CHR '',''"
    by (simp_all add: is_space_def)
  then show ?thesis
    using fmt_d_no_space by (simp add: format_millis_def Let_def)
qed

lemma format_millis_not_Nil: "format_millis m \<noteq> []"
  using fmt_d_not_Nil by (simp add: format_millis_def Let_def)

lemma format_time_plain:
  assumes "format_time x = Inr s"
  shows "s \<noteq> [] \<and> list_all (\<lambda>c. \<not> is_space c) s"
proof -
  from assms obtain m where "s = format_millis m"
    by (auto simp: format_time_def split: sum.splits)
  with format_millis_no_space [of m] format_millis_not_Nil [of m] show ?thesis
    by simp
qed

lemma is_space_CR [simp]: "is_space CR"
  by (simp add: is_space_def)

lemma no_space_no_breaks: "list_all (\<lambda>c. \<not> is_space c) s \<Longrightarrow> NL \<notin> set s \<and> CR \<notin> set s"
  by (auto simp: list_all_iff)

lemma time_line_good:
  assumes "format_time x = Inr t1" and "format_time y = Inr t2"
  shows "good_line (t1 @ '' --> '' @ t2)"
proof -
  from format_time_plain [OF assms(1)] have 1: "t1 \<noteq> []" "list_all (\<lambda>c. \<not> is_space c) t1"
    by simp_all
  from format_time_plain [OF assms(2)] have 2: "t2 \<noteq> []" "list_all (\<lambda>c. \<not> is_space c) t2"
    by simp_all
  from 1 have h: "\<not> is_space (hd t1)" by (cases t1) auto
  from 2 have l: "\<not> is_space (last t2)" by (auto simp: list_all_iff)
  from no_space_no_breaks [OF 1(2)] no_space_no_breaks [OF 2(2)]
  have "NL \<notin> set t1" "CR \<notin> set t1" "NL \<notin> set t2" "CR \<notin> set t2"
    by simp_all
  with 1 2 h l show ?thesis
    by (simp add: good_line_def)
qed

lemma str_int_plain:
  assumes "0 \<le> i"
  shows "str_int i \<noteq> [] \<and> list_all is_digit (str_int i) \<and> list_all (\<lambda>c. \<not> is_space c) (str_int i)"
  using assms digits_not_Nil [of "nat i"] digits_is_digit [of "nat i"] digits_no_space [of "nat i"]
  by (simp add: str_int_def)

lemma block_text_props:
  assumes "0 \<le> i" and "good_item (tline, t)"
  shows "block_text i tline t \<noteq> []" and "\<not> is_space (hd (block_text i tline t))"
    and "\<not> is_space (last (block_text i tline t))"
    and "re_split (block_text i tline t) = [block_text i tline t]"
    and "CR \<notin> set (block_text i tline t)"
    and "split_nl (block_text i tline t) = str_int i # tline # body_of t"
proof -
  from str_int_plain [OF assms(1)] have
    a1: "str_int i \<noteq> []" "list_all (\<lambda>c. \<not> is_space c) (str_int i)"
    by simp_all
  from no_space_no_breaks [OF a1(2)] have b1: "NL \<notin> set (str_int i)" "CR \<notin> set (str_int i)"
    by simp_all
  from a1 have h1: "\<not> is_space (hd (str_int i))" by (cases "str_int i") auto
  from a1 have l1: "\<not> is_space (last (str_int i))" by (auto simp: list_all_iff)
  from assms(2) have
    tl: "tline \<noteq> []" "NL \<notin> set tline" "CR \<notin> set tline" "\<not> is_space (hd tline)"
      "\<not> is_space (last tline)" and
    t: "CR \<notin> set t" "re_split t = [t]" "t = [] \<or> (\<not> is_space (hd t) \<and> \<not> is_space (last t))"
    by (simp_all add: good_item_def good_line_def unbroken_def)
  let ?a2 = "str_int i @ NL # tline"
  have r2: "re_split ?a2 = [?a2]"
    by (rule unsplit_join) (use l1 b1 tl in \<open>simp_all add: re_split_no_NL\<close>)
  have l2: "\<not> is_space (last ?a2)" using tl by simp
  show "block_text i tline t \<noteq> []" by (simp add: block_text_def)
  show "\<not> is_space (hd (block_text i tline t))"
    using a1(1) h1 by (simp add: block_text_def)
  show "\<not> is_space (last (block_text i tline t))"
    using tl t(3) by (auto simp: block_text_def)
  show "re_split (block_text i tline t) = [block_text i tline t]"
  proof (cases "t = []")
    case True
    with r2 show ?thesis by (simp add: block_text_def)
  next
    case False
    have "re_split (?a2 @ NL # t) = [?a2 @ NL # t]"
      by (rule unsplit_join) (use l2 r2 t False in simp_all)
    with False show ?thesis by (simp add: block_text_def)
  qed
  show "CR \<notin> set (block_text i tline t)"
    using b1 tl t by (simp add: block_text_def)
  show "split_nl (block_text i tline t) = str_int i # tline # body_of t"
  proof (cases "t = []")
    case True
    have "split_nl (str_int i @ NL # tline) = str_int i # split_nl tline"
      using b1(1) by (rule split_nl_append_NL)
    with True tl(2) show ?thesis
      by (simp add: block_text_def body_of_def split_nl_no_NL)
  next
    case False
    have "split_nl (str_int i @ NL # (tline @ NL # t)) = str_int i # split_nl (tline @ NL # t)"
      using b1(1) by (rule split_nl_append_NL)
    moreover have "split_nl (tline @ NL # t) = tline # split_nl t"
      using tl(2) by (rule split_nl_append_NL)
    ultimately show ?thesis using False
      by (simp add: block_text_def body_of_def)
  qed
qed

lemma entry_of_block_text:
  assumes "0 \<le> i" and "good_item (tline, t)"
  shows "entry_of (block_text i tline t) = (tline, body_of t) \<and>
         2 \<le> length (split_nl (block_text i tline t))"
proof -
  from str_int_plain [OF assms(1)] have
    a1: "str_int i \<noteq> []" "list_all is_digit (str_int i)"
      "list_all (\<lambda>c. \<not> is_space c) (str_int i)"
    by simp_all
  from a1 have "\<not> is_space (hd (str_int i))" "\<not> is_space (last (str_int i))"
    by (cases "str_int i"; auto simp: list_all_iff)+
  then have "strip (str_int i) = str_int i" by (intro strip_id) simp
  with a1 have "isdigit (strip (str_int i))" by (simp add: isdigit_def)
  with block_text_props(6) [OF assms] show ?thesis
    by (simp add: entry_of_def)
qed

lemma sep_after_form: "\<exists>w. sep_after t = NL # w \<and> (w = [NL] \<or> w = [NL, NL]) \<and> list_all is_space (sep_after t)"
  by (simp add: sep_after_def)

lemma ser_split:
  assumes "items \<noteq> []" and "0 \<le> i" and "list_all good_item items"
  shows "\<exists>S w. ser i items = S @ w \<and> list_all is_space w \<and> S \<noteq> [] \<and>
           \<not> is_space (hd S) \<and> \<not> is_space (last S) \<and> re_split S = blocks_from i items"
  using assms
proof (induction items arbitrary: i)
  case Nil
  then show ?case by simp
next
  case (Cons x items)
  obtain tline t where x: "x = (tline, t)" by (cases x)
  from Cons.prems have g: "good_item (tline, t)" and gs: "list_all good_item items"
    by (simp_all add: x)
  note b = block_text_props [OF Cons.prems(2) g]
  obtain w0 where w0: "sep_after t = NL # w0" "w0 = [NL] \<or> w0 = [NL, NL]"
      "list_all is_space (sep_after t)"
    using sep_after_form by blast
  show ?case
  proof (cases "items = []")
    case True
    have "ser i (x # items) = block_text i tline t @ sep_after t"
      using True by (simp add: x)
    with b w0(3) True show ?thesis
      by (intro exI [of _ "block_text i tline t"] exI [of _ "sep_after t"]) (simp add: x)
  next
    case False
    from Cons.prems(2) have i1: "0 \<le> i + 1" by simp
    from Cons.IH [OF False i1 gs] obtain S w where
      S: "ser (i + 1) items = S @ w" "list_all is_space w" "S \<noteq> []"
        "\<not> is_space (hd S)" "\<not> is_space (last S)" "re_split S = blocks_from (i + 1) items"
      by blast
    let ?S = "block_text i tline t @ NL # w0 @ S"
    have "re_split ?S = block_text i tline t # re_split S"
      by (rule split_at_sep) (use b w0 S in simp_all)
    then have r: "re_split ?S = blocks_from i (x # items)"
      using S(6) by (simp add: x)
    have e: "ser i (x # items) = ?S @ w"
      using S(1) w0(1) by (simp add: x)
    have h: "\<not> is_space (hd ?S)" using b(1,2) by simp
    have l: "\<not> is_space (last ?S)" using S(3,5) by simp
    from e S(2) h l r show ?thesis
      by (intro exI [of _ ?S] exI [of _ w]) simp
  qed
qed

lemma ser_no_CR: "0 \<le> i \<Longrightarrow> list_all good_item items \<Longrightarrow> CR \<notin> set (ser i items)"
proof (induction items arbitrary: i)
  case Nil
  then show ?case by simp
next
  case (Cons x items)
  obtain tline t where x: "x = (tline, t)" by (cases x)
  from Cons.prems have g: "good_item (tline, t)" and gs: "list_all good_item items"
    by (simp_all add: x)
  from Cons.prems(1) have "0 \<le> i + 1" by simp
  from Cons.IH [OF this gs] block_text_props(5) [OF Cons.prems(1) g] show ?case
    by (simp add: x sep_after_def)
qed

lemma entries_of_blocks_from:
  "0 \<le> i \<Longrightarrow> list_all good_item items \<Longrightarrow>
   map entry_of (filter (\<lambda>b. 2 \<le> length (split_nl b)) (blocks_from i items)) =
     map entry_of_item items"
proof (induction items arbitrary: i)
  case Nil
  then show ?case by simp
next
  case (Cons x items)
  obtain tline t where x: "x = (tline, t)" by (cases x)
  from Cons.prems have g: "good_item (tline, t)" and gs: "list_all good_item items"
    by (simp_all add: x)
  from Cons.prems(1) have "0 \<le> i + 1" by simp
  from Cons.IH [OF this gs] entry_of_block_text [OF Cons.prems(1) g] show ?case
    by (simp add: x entry_of_item_def)
qed

lemma parse_srt_Nil: "parse_srt [] = Inr []"
  by (simp add: parse_srt_def blocks_of_def remove_cr_def strip_def lstrip_def rstrip_def
      parse_block_lines)

lemma parse_ser:
  assumes "0 \<le> i" and "list_all good_item items"
  shows "parse_srt (ser i items) = Inr (map entry_of_item items)"
proof (cases "items = []")
  case True
  then show ?thesis by (simp add: parse_srt_Nil)
next
  case False
  from ser_split [OF False assms] obtain S w where
    S: "ser i items = S @ w" "list_all is_space w" "S \<noteq> []"
      "\<not> is_space (hd S)" "\<not> is_space (last S)" "re_split S = blocks_from i items"
    by blast
  from ser_no_CR [OF assms] have "remove_cr (ser i items) = ser i items"
    by (auto simp: remove_cr_def filter_id_conv)
  moreover have "strip (S @ w) = S"
    using S(3,4,5,2) by (rule strip_append_spaces)
  ultimately have "blocks_of (ser i items) = blocks_from i items"
    using S(1,6) by (simp add: blocks_of_def)
  then show ?thesis
    using entries_of_blocks_from [OF assms] by (simp add: parse_srt_def parse_blocks_eq)
qed

lemma asr_items:
  assumes "asr_write_srt_from i segs = Inr chunks"
    and "list_all (\<lambda>seg. unbroken (strip (seg_text seg))) segs"
  shows "\<exists>items. list_all good_item items \<and> concat chunks = ser i items \<and>
           chunks = write_srt_from i (map entry_of_item items) \<and> length items = length segs"
  using assms
proof (induction segs arbitrary: i chunks)
  case Nil
  then show ?case by (intro exI [of _ "[]"]) simp
next
  case (Cons seg segs)
  from Cons.prems(1) obtain t1 t2 rest where
    t1: "format_time (seg_start seg) = Inr t1" and
    t2: "format_time (seg_end seg) = Inr t2" and
    rest: "asr_write_srt_from (i + 1) segs = Inr rest" and
    chunks: "chunks = [str_int i @ [NL], t1 @ '' --> '' @ t2 @ [NL],
      strip (seg_text seg) @ [NL, NL]] @ rest"
    by (auto split: sum.splits)
  from Cons.prems(2) have u: "unbroken (strip (seg_text seg))" and
    us: "list_all (\<lambda>seg. unbroken (strip (seg_text seg))) segs"
    by simp_all
  from Cons.IH [OF rest us] obtain items where
    items: "list_all good_item items" "concat rest = ser (i + 1) items"
      "rest = write_srt_from (i + 1) (map entry_of_item items)" "length items = length segs"
    by blast
  define tline where "tline = t1 @ '' --> '' @ t2"
  define t where "t = strip (seg_text seg)"
  have g: "good_item (tline, t)"
    using time_line_good [OF t1 t2] u strip_ends [of "seg_text seg"]
    by (simp add: good_item_def tline_def t_def)
  have st: "strip (join_nl (body_of t)) = t"
    by (simp add: body_of_def join_split_nl t_def strip_strip)
      (simp add: strip_def lstrip_def rstrip_def)
  have c: "str_int i @ [NL] @ tline @ [NL] @ t @ [NL, NL] = block_text i tline t @ sep_after t"
    by (simp add: block_text_def sep_after_def)
  have "concat chunks = ser i ((tline, t) # items)"
    using c items(2) by (simp add: chunks tline_def t_def)
  moreover have "chunks = write_srt_from i (map entry_of_item ((tline, t) # items))"
    using items(3) st by (simp add: chunks entry_of_item_def tline_def t_def)
  ultimately show ?case
    using g items(1,4) by (intro exI [of _ "(tline, t) # items"]) simp
qed

lemma asr_write_srt_example:
  "asr_write_srt [\<lparr>seg_start = Finite 0, seg_end = Finite 1, seg_text = '' Hello\<newline>world ''\<rparr>,
                  \<lparr>seg_start = Finite 1, seg_end = Finite 2, seg_text = ''''\<rparr>] =
     Inr ''1\<newline>00:00:00,000 --> 00:00:01,000\<newline>Hello\<newline>world\<newline>\<newline>2\<newline>00:00:01,000 --> 00:00:02,000\<newline>\<newline>\<newline>''"
  by (simp add: asr_write_srt_def format_time_def to_float_examples fmt_eval str_eval)

lemma unbroken_example:
  "list_all (\<lambda>seg. unbroken (strip (seg_text seg)))
     [\<lparr>seg_start = Finite 0, seg_end = Finite 1, seg_text = '' Hello\<newline>world ''\<rparr>,
      \<lparr>seg_start = Finite 1, seg_end = Finite 2, seg_text = ''''\<rparr>]"
  by (simp add: unbroken_def str_eval)

text \<open>
  C1, as amended. For every sequence of segments that asr.py serializes (no time overflows)
  and whose stripped texts hold no carriage return and no blank-line boundary, the parser
  reads back one entry for each segment, and serializing these entries writes the same
  index lines, timestamp lines and texts, so the same file, byte for byte. The times need
  not be ordered for this, and the sequence may be empty.
\<close>

theorem round_trip:
  assumes "asr_write_srt segments = Inr out"
    and "list_all (\<lambda>seg. unbroken (strip (seg_text seg))) segments"
  shows "\<exists>entries. parse_srt out = Inr entries \<and>
           asr_write_srt_from 1 segments = Inr (write_srt_from 1 entries) \<and>
           write_srt entries = out \<and> length entries = length segments"
proof -
  from assms(1) obtain chunks where
    chunks: "asr_write_srt_from 1 segments = Inr chunks" and out: "out = concat chunks"
    by (cases "asr_write_srt_from 1 segments") (auto simp: asr_write_srt_def)
  from asr_items [OF chunks assms(2)] obtain items where
    items: "list_all good_item items" "concat chunks = ser 1 items"
      "chunks = write_srt_from 1 (map entry_of_item items)" "length items = length segments"
    by blast
  have "parse_srt out = Inr (map entry_of_item items)"
    using parse_ser [of 1 items] items(1,2) out by simp
  moreover have "write_srt (map entry_of_item items) = out"
    using items(3) out by (simp add: write_srt_def)
  ultimately show ?thesis
    using chunks items(3,4) by (intro exI [of _ "map entry_of_item items"]) simp
qed

theorem round_trip_witness:
  "asr_write_srt [\<lparr>seg_start = Finite 0, seg_end = Finite 1, seg_text = '' Hello\<newline>world ''\<rparr>,
                  \<lparr>seg_start = Finite 1, seg_end = Finite 2, seg_text = ''''\<rparr>] =
     Inr ''1\<newline>00:00:00,000 --> 00:00:01,000\<newline>Hello\<newline>world\<newline>\<newline>2\<newline>00:00:01,000 --> 00:00:02,000\<newline>\<newline>\<newline>'' \<and>
   list_all (\<lambda>seg. unbroken (strip (seg_text seg)))
     [\<lparr>seg_start = Finite 0, seg_end = Finite 1, seg_text = '' Hello\<newline>world ''\<rparr>,
      \<lparr>seg_start = Finite 1, seg_end = Finite 2, seg_text = ''''\<rparr>] \<and>
   (\<exists>entries.
      parse_srt ''1\<newline>00:00:00,000 --> 00:00:01,000\<newline>Hello\<newline>world\<newline>\<newline>2\<newline>00:00:01,000 --> 00:00:02,000\<newline>\<newline>\<newline>'' = Inr entries \<and>
      asr_write_srt_from 1
        [\<lparr>seg_start = Finite 0, seg_end = Finite 1, seg_text = '' Hello\<newline>world ''\<rparr>,
         \<lparr>seg_start = Finite 1, seg_end = Finite 2, seg_text = ''''\<rparr>] =
        Inr (write_srt_from 1 entries) \<and>
      write_srt entries = ''1\<newline>00:00:00,000 --> 00:00:01,000\<newline>Hello\<newline>world\<newline>\<newline>2\<newline>00:00:01,000 --> 00:00:02,000\<newline>\<newline>\<newline>'' \<and>
      length entries =
        length [\<lparr>seg_start = Finite 0, seg_end = Finite 1, seg_text = '' Hello\<newline>world ''\<rparr>,
                \<lparr>seg_start = Finite 1, seg_end = Finite 2, seg_text = ''''\<rparr>])"
  by (intro conjI) (rule asr_write_srt_example, rule unbroken_example,
      rule round_trip [OF asr_write_srt_example unbroken_example])

lemma broken_written:
  "asr_write_srt_from 1 [\<lparr>seg_start = Finite 0, seg_end = Finite 1, seg_text = ''a\<newline>\<newline>b\<newline>c''\<rparr>] =
     Inr [''1\<newline>'', ''00:00:00,000 --> 00:00:01,000\<newline>'', ''a\<newline>\<newline>b\<newline>c\<newline>\<newline>'']"
  by (simp add: format_time_def to_float_examples fmt_eval str_eval)

lemma broken_blocks:
  "blocks_of ''1\<newline>00:00:00,000 --> 00:00:01,000\<newline>a\<newline>\<newline>b\<newline>c\<newline>\<newline>'' =
     [''1\<newline>00:00:00,000 --> 00:00:01,000\<newline>a'', ''b\<newline>c'']"
  by (simp add: blocks_of_def remove_cr_def str_eval)

lemma broken_parsed:
  "parse_srt ''1\<newline>00:00:00,000 --> 00:00:01,000\<newline>a\<newline>\<newline>b\<newline>c\<newline>\<newline>'' =
     Inr [(''00:00:00,000 --> 00:00:01,000'', [''a'']), (''b'', [''c''])]"
  by (simp add: parse_srt_def broken_blocks parse_block_lines str_eval)

lemma broken_rewritten:
  "write_srt_from 1 [(''00:00:00,000 --> 00:00:01,000'', [''a'']), (''b'', [''c''])] =
     [''1\<newline>'', ''00:00:00,000 --> 00:00:01,000\<newline>'', ''a\<newline>\<newline>'',
      ''2\<newline>'', ''b\<newline>'', ''c\<newline>\<newline>'']"
  by (simp add: fmt_eval str_eval)

text \<open>
  The claim as stated fails for a segment whose text holds a blank line: the parser cuts
  the block there, and what follows the blank line comes back as an entry of its own whose
  timestamp line is a line of the text.
\<close>

theorem round_trip_counterexample:
  "asr_write_srt [\<lparr>seg_start = Finite 0, seg_end = Finite 1, seg_text = ''a\<newline>\<newline>b\<newline>c''\<rparr>] =
     Inr ''1\<newline>00:00:00,000 --> 00:00:01,000\<newline>a\<newline>\<newline>b\<newline>c\<newline>\<newline>'' \<and>
   parse_srt ''1\<newline>00:00:00,000 --> 00:00:01,000\<newline>a\<newline>\<newline>b\<newline>c\<newline>\<newline>'' =
     Inr [(''00:00:00,000 --> 00:00:01,000'', [''a'']), (''b'', [''c''])] \<and>
   time_writes [''1\<newline>'', ''00:00:00,000 --> 00:00:01,000\<newline>'', ''a\<newline>\<newline>b\<newline>c\<newline>\<newline>''] =
     [''00:00:00,000 --> 00:00:01,000\<newline>''] \<and>
   time_writes (write_srt_from 1 [(''00:00:00,000 --> 00:00:01,000'', [''a'']), (''b'', [''c''])]) =
     [''00:00:00,000 --> 00:00:01,000\<newline>'', ''b\<newline>''] \<and>
   write_srt [(''00:00:00,000 --> 00:00:01,000'', [''a'']), (''b'', [''c''])] \<noteq>
     ''1\<newline>00:00:00,000 --> 00:00:01,000\<newline>a\<newline>\<newline>b\<newline>c\<newline>\<newline>''"
proof -
  have 1: "asr_write_srt [\<lparr>seg_start = Finite 0, seg_end = Finite 1, seg_text = ''a\<newline>\<newline>b\<newline>c''\<rparr>] =
     Inr ''1\<newline>00:00:00,000 --> 00:00:01,000\<newline>a\<newline>\<newline>b\<newline>c\<newline>\<newline>''"
    by (simp only: asr_write_srt_def broken_written) simp
  have 4: "time_writes (write_srt_from 1 [(''00:00:00,000 --> 00:00:01,000'', [''a'']), (''b'', [''c''])]) =
     [''00:00:00,000 --> 00:00:01,000\<newline>'', ''b\<newline>'']"
    by (simp only: broken_rewritten) simp
  have 5: "write_srt [(''00:00:00,000 --> 00:00:01,000'', [''a'']), (''b'', [''c''])] \<noteq>
     ''1\<newline>00:00:00,000 --> 00:00:01,000\<newline>a\<newline>\<newline>b\<newline>c\<newline>\<newline>''"
    by (simp only: write_srt_def broken_rewritten) simp
  show ?thesis
    by (intro conjI) (rule 1, rule broken_parsed, simp, rule 4, rule 5)
qed


end
